theory Spec2Isabelle
  imports Main "HOL-Library.Sublist"
begin

section \<open>Strings of the host language\<close>

text \<open>
  The program is \<^verbatim>\<open>src/etl/normalize_data.py\<close>. Its values are Python strings; a cell
  of a table read by pandas is a string or the missing marker NA. A string is modelled
  as a \<open>string\<close> (a list of \<open>char\<close>), a cell as a \<open>string option\<close> with \<open>None\<close> for NA.

  A \<open>char\<close> is one of the code points 0..255 (ASCII and Latin-1). The character classes
  and case mappings below are those of Python on these code points. \<^verbatim>\<open>str.isspace\<close>,
  \<^verbatim>\<open>str.strip()\<close> and the regular expression class \<^verbatim>\<open>\s\<close> read the same table, which
  holds for 9..13, 28..32, 0x85 and 0xA0. Upper-case are A..Z and 0xC0..0xDE without
  the multiplication sign 0xD7; lower-case are a..z, 0xDF..0xFF without the division
  sign 0xF7, and the three characters 0xAA, 0xB5 and 0xBA; a character is cased when it
  is either. No code point above 255 is modelled.
\<close>

definition c_isspace :: "char \<Rightarrow> bool" where
  "c_isspace c =
     (let n = (of_char c :: nat) in
      (9 \<le> n \<and> n \<le> 13) \<or> (28 \<le> n \<and> n \<le> 32) \<or> n = 133 \<or> n = 160)"

definition c_isupper :: "char \<Rightarrow> bool" where
  "c_isupper c =
     (let n = (of_char c :: nat) in
      (65 \<le> n \<and> n \<le> 90) \<or> (192 \<le> n \<and> n \<le> 214) \<or> (216 \<le> n \<and> n \<le> 222))"

definition c_islower :: "char \<Rightarrow> bool" where
  "c_islower c =
     (let n = (of_char c :: nat) in
      (97 \<le> n \<and> n \<le> 122) \<or> n = 170 \<or> n = 181 \<or> n = 186
      \<or> (223 \<le> n \<and> n \<le> 246) \<or> (248 \<le> n \<and> n \<le> 255))"

definition c_iscased :: "char \<Rightarrow> bool" where
  "c_iscased c = (c_isupper c \<or> c_islower c)"

text \<open>The lower-case form of a character: every upper-case character has one, 32 above.\<close>

definition c_lower :: "char \<Rightarrow> char" where
  "c_lower c = (if c_isupper c then char_of ((of_char c :: nat) + 32) else c)"

text \<open>
  The title-case form of a character, a string: the sharp s 0xDF becomes \<^verbatim>\<open>Ss\<close>; a
  lower-case letter with an upper-case partner in 0..255 becomes that partner, 32
  below; 0xAA and 0xBA have no other case. The title-case forms of 0xB5 (micro sign) and
  0xFF (y with diaeresis) are the code points U+039C and U+0178, which are no \<open>char\<close>:
  the model leaves these two characters unchanged, and \<open>title_exact\<close> below names the
  strings on which it is Python's \<^verbatim>\<open>str.title\<close>.
\<close>

definition c_title :: "char \<Rightarrow> string" where
  "c_title c =
     (let n = (of_char c :: nat) in
      if n = 223 then ''Ss''
      else if (97 \<le> n \<and> n \<le> 122) \<or> (224 \<le> n \<and> n \<le> 246) \<or> (248 \<le> n \<and> n \<le> 254)
           then [char_of (n - 32)]
      else [c])"


text \<open>The decimal digits 0..9.\<close>

definition is_decimal_digit :: "char \<Rightarrow> bool" where
  "is_decimal_digit c = (let n = (of_char c :: nat) in 48 \<le> n \<and> n \<le> 57)"

text \<open>\<^verbatim>\<open>str.lower()\<close>.\<close>

definition py_lower :: "string \<Rightarrow> string" where
  "py_lower s = map c_lower s"

text \<open>
  \<^verbatim>\<open>str.islower()\<close>: no character is upper-case and at least one is lower-case;
  \<^verbatim>\<open>str.isupper()\<close> is the mirror image.
\<close>

definition py_islower :: "string \<Rightarrow> bool" where
  "py_islower s = (\<not> list_ex c_isupper s \<and> list_ex c_islower s)"

definition py_isupper :: "string \<Rightarrow> bool" where
  "py_isupper s = (\<not> list_ex c_islower s \<and> list_ex c_isupper s)"

text \<open>
  \<^verbatim>\<open>str.title()\<close>: one pass that remembers whether the previous character was cased; a
  character after a cased one is replaced by its lower-case form, any other by its
  title-case form.
\<close>

fun title_from :: "bool \<Rightarrow> string \<Rightarrow> string" where
  "title_from previous_is_cased [] = []"
| "title_from previous_is_cased (c # cs) =
     (if previous_is_cased then [c_lower c] else c_title c) @ title_from (c_iscased c) cs"

definition py_title :: "string \<Rightarrow> string" where
  "py_title s = title_from False s"

text \<open>\<^verbatim>\<open>str.strip()\<close> strips whitespace, \<^verbatim>\<open>str.strip(chars)\<close> the characters of \<open>chars\<close>.\<close>

definition strip_where :: "(char \<Rightarrow> bool) \<Rightarrow> string \<Rightarrow> string" where
  "strip_where p s = rev (dropWhile p (rev (dropWhile p s)))"

definition py_strip :: "string \<Rightarrow> string" where
  "py_strip s = strip_where c_isspace s"

definition py_strip_chars :: "string \<Rightarrow> string \<Rightarrow> string" where
  "py_strip_chars chars s = strip_where (\<lambda>c. c \<in> set chars) s"

text \<open>
  \<^verbatim>\<open>re.sub(r'\s+', ' ', s)\<close>: every maximal run of whitespace becomes one space.
\<close>

function sub_spaces :: "string \<Rightarrow> string" where
  "sub_spaces [] = []"
| "sub_spaces (c # cs) =
     (if c_isspace c then CHR '' '' # sub_spaces (dropWhile c_isspace cs)
      else c # sub_spaces cs)"
  by pat_completeness auto
termination
  by (relation "measure length") (auto simp: less_Suc_eq_le length_dropWhile_le)

section \<open>Field Normalizer\<close>

text \<open>\<^verbatim>\<open>normalize_whitespace(s)\<close>: NA gives the empty string.\<close>

definition normalize_whitespace :: "string option \<Rightarrow> string" where
  "normalize_whitespace s =
     (case s of None \<Rightarrow> [] | Some v \<Rightarrow> py_strip (sub_spaces v))"

text \<open>\<^verbatim>\<open>title_case(s)\<close>.\<close>

definition title_case :: "string option \<Rightarrow> string" where
  "title_case v =
     (let s = normalize_whitespace v in
      if s = [] then s
      else if py_islower s \<or> py_isupper s then py_title s else s)"

section \<open>Author Parser\<close>

text \<open>
  \<^verbatim>\<open>re.sub(r'\s+(?i:and)\s+', ',', raw)\<close>. \<open>match_and s\<close> is the match of the pattern
  at the start of \<open>s\<close>, as the rest of \<open>s\<close> after it: both \<^verbatim>\<open>\s+\<close> are greedy, and
  giving back whitespace never helps (the next character would be whitespace, not a
  letter), so the first takes the whole run of whitespace, which must not be empty, the
  letters a, n, d follow in either case, and the second takes the whole run after them,
  which must not be empty either. \<open>sub_and\<close> replaces the matches from left to right,
  resuming after each match.
\<close>

definition match_and :: "string \<Rightarrow> string option" where
  "match_and s =
     (let r = dropWhile c_isspace s; t = drop 3 r in
      if takeWhile c_isspace s \<noteq> [] \<and> py_lower (take 3 r) = ''and''
         \<and> takeWhile c_isspace t \<noteq> []
      then Some (dropWhile c_isspace t) else None)"

function sub_and :: "string \<Rightarrow> string" where
  "sub_and [] = []"
| "sub_and (c # cs) =
     (case match_and (c # cs) of
        Some rest \<Rightarrow> CHR '','' # sub_and rest
      | None \<Rightarrow> c # sub_and cs)"
  by pat_completeness auto
termination
proof (relation "measure length")
  show "wf (measure length)" by simp
next
  fix c :: char and cs rest :: string
  assume m: "match_and (c # cs) = Some rest"
  define t where "t = drop 3 (dropWhile c_isspace (c # cs))"
  define n where "n = length (c # cs)"
  from m have r: "rest = dropWhile c_isspace t" and ne: "takeWhile c_isspace t \<noteq> []"
    by (auto simp: match_and_def Let_def t_def split: if_splits)
  have "length (takeWhile c_isspace t @ dropWhile c_isspace t) = length t"
    by (simp only: takeWhile_dropWhile_id)
  then have sum: "length (takeWhile c_isspace t) + length (dropWhile c_isspace t) = length t"
    by (simp only: length_append)
  have pos: "0 < length (takeWhile c_isspace t)"
    using ne by (cases "takeWhile c_isspace t") simp_all
  have "length t \<le> length (dropWhile c_isspace (c # cs))"
    unfolding t_def length_drop by (rule diff_le_self)
  also have "\<dots> \<le> n"
    unfolding n_def by (rule length_dropWhile_le)
  finally have "length (dropWhile c_isspace t) < n"
    using sum pos by linarith
  then show "(rest, c # cs) \<in> measure length"
    unfolding r n_def by (simp only: in_measure)
next
  fix c :: char and cs :: string
  show "(cs, c # cs) \<in> measure length" by simp
qed

text \<open>\<^verbatim>\<open>raw.replace('&', ',')\<close>.\<close>

definition replace_amp :: "string \<Rightarrow> string" where
  "replace_amp s = map (\<lambda>c. if c = CHR ''&'' then CHR '','' else c) s"

text \<open>
  \<^verbatim>\<open>re.split(r'[;,|]', raw)\<close>: the pieces between the separators, empty ones included;
  a string with no separator is one piece.
\<close>

fun re_split :: "(char \<Rightarrow> bool) \<Rightarrow> string \<Rightarrow> string list" where
  "re_split sep [] = [[]]"
| "re_split sep (c # cs) =
     (if sep c then [] # re_split sep cs
      else (case re_split sep cs of [] \<Rightarrow> [[c]] | p # ps \<Rightarrow> (c # p) # ps))"

definition is_separator :: "char \<Rightarrow> bool" where
  "is_separator c = (c = CHR '';'' \<or> c = CHR '','' \<or> c = CHR ''|'')"

text \<open>
  The loop of \<^verbatim>\<open>split_authors\<close> over \<^verbatim>\<open>names\<close>, with its two variables \<^verbatim>\<open>seen\<close> (a set)
  and \<^verbatim>\<open>out\<close> (a list).
\<close>

fun seen_loop :: "string list \<Rightarrow> string set \<Rightarrow> string list \<Rightarrow> string list" where
  "seen_loop [] seen out = out"
| "seen_loop (n # ns) seen out =
     (let key = py_lower n in
      if key \<notin> seen then seen_loop ns (insert key seen) (out @ [n])
      else seen_loop ns seen out)"

text \<open>The list \<^verbatim>\<open>names\<close> of \<^verbatim>\<open>split_authors\<close>, for a field that is a string.\<close>

definition author_names :: "string \<Rightarrow> string list" where
  "author_names field =
     (let raw = sub_and field;
          raw = replace_amp raw;
          parts = re_split is_separator raw
      in map (\<lambda>p. title_case (Some p))
           (filter (\<lambda>p. normalize_whitespace (Some p) \<noteq> []) parts))"

definition split_authors :: "string option \<Rightarrow> string list" where
  "split_authors field =
     (case field of
        None \<Rightarrow> []
      | Some f \<Rightarrow> if py_strip f = [] then [] else seen_loop (author_names f) {} [])"

section \<open>Tables\<close>

text \<open>
  pandas' \<^verbatim>\<open>drop_duplicates\<close> (with the default \<^verbatim>\<open>keep='first'\<close>): a row is dropped
  when an earlier row has the same value in the columns of \<^verbatim>\<open>subset\<close>; the rows kept
  stay in their order. \<open>key\<close> reads the columns of \<^verbatim>\<open>subset\<close>.
\<close>

fun keep_first :: "('a \<Rightarrow> 'k) \<Rightarrow> 'k list \<Rightarrow> 'a list \<Rightarrow> 'a list" where
  "keep_first key seen [] = []"
| "keep_first key seen (x # xs) =
     (if key x \<in> set seen then keep_first key seen xs
      else x # keep_first key (key x # seen) xs)"

definition drop_duplicates :: "('a \<Rightarrow> 'k) \<Rightarrow> 'a list \<Rightarrow> 'a list" where
  "drop_duplicates key rows = keep_first key [] rows"

datatype py_error = KeyError

text \<open>
  A Python dict, as the list of its items in insertion order. \<^verbatim>\<open>d[k]\<close> raises KeyError
  for a key that is not in \<open>d\<close>; \<^verbatim>\<open>d[k] = v\<close> is only used below for a key that is not in
  \<open>d\<close>, where it adds an item, so no key is listed twice and \<^verbatim>\<open>len(d)\<close> is the length
  of the list.
\<close>

type_synonym ('k, 'v) dict = "('k \<times> 'v) list"

definition dict_contains :: "('k, 'v) dict \<Rightarrow> 'k \<Rightarrow> bool" where
  "dict_contains d k = (map_of d k \<noteq> None)"

definition dict_get :: "('k, 'v) dict \<Rightarrow> 'k \<Rightarrow> py_error + 'v" where
  "dict_get d k = (case map_of d k of None \<Rightarrow> Inl KeyError | Some v \<Rightarrow> Inr v)"

definition dict_add :: "('k, 'v) dict \<Rightarrow> 'k \<Rightarrow> 'v \<Rightarrow> ('k, 'v) dict" where
  "dict_add d k v = d @ [(k, v)]"

section \<open>Book Table Builder\<close>

text \<open>
  A row of the books file as \<^verbatim>\<open>read_csv\<close> returns it (every column a string, or NA for a
  field the line does not have), and a row of \<^verbatim>\<open>bdf\<close> after every column has been mapped
  through \<^verbatim>\<open>normalize_whitespace\<close>. A file with no Author column is a file whose rows
  all have NA there: \<^verbatim>\<open>row.get('Author', '')\<close> is the empty string in both cases.
\<close>

record raw_book_row =
  ISBN10 :: "string option"
  Title :: "string option"
  Author :: "string option"

record book_row =
  isbn10 :: string
  title :: string
  author :: string

definition normalize_book_row :: "raw_book_row \<Rightarrow> book_row" where
  "normalize_book_row r =
     \<lparr>isbn10 = normalize_whitespace (ISBN10 r),
      title = normalize_whitespace (Title r),
      author = normalize_whitespace (Author r)\<rparr>"

text \<open>\<^verbatim>\<open>bdf\<close> after the rows with no ISBN10 have been dropped.\<close>

definition surviving_rows :: "raw_book_row list \<Rightarrow> book_row list" where
  "surviving_rows rows = filter (\<lambda>r. length (isbn10 r) > 0) (map normalize_book_row rows)"

text \<open>The table \<^verbatim>\<open>book\<close>: columns Isbn, Title.\<close>

definition book_table :: "book_row list \<Rightarrow> (string \<times> string) list" where
  "book_table bdf = drop_duplicates fst (map (\<lambda>r. (isbn10 r, title r)) bdf)"

text \<open>The three variables of the loop over the rows of \<^verbatim>\<open>bdf\<close>.\<close>

record loop_state =
  author_name_to_id :: "(string, int) dict"
  authors_rows :: "(int \<times> string) list"
  book_authors_rows :: "(string \<times> int) list"

text \<open>The body of the inner loop, for one \<^verbatim>\<open>name\<close> of the row with key \<^verbatim>\<open>isbn\<close>.\<close>

definition name_step :: "string \<Rightarrow> string \<Rightarrow> loop_state \<Rightarrow> py_error + loop_state" where
  "name_step isbn name st =
     (let key = py_lower name;
          st1 = (if \<not> dict_contains (author_name_to_id st) key
                 then (let author_id = int (length (author_name_to_id st)) + 1 in
                       st\<lparr>author_name_to_id := dict_add (author_name_to_id st) key author_id,
                          authors_rows := authors_rows st @ [(author_id, name)]\<rparr>)
                 else st)
      in case dict_get (author_name_to_id st1) key of
           Inl e \<Rightarrow> Inl e
         | Inr aid \<Rightarrow> Inr (st1\<lparr>book_authors_rows := book_authors_rows st1 @ [(isbn, aid)]\<rparr>))"

fun names_loop :: "string \<Rightarrow> string list \<Rightarrow> loop_state \<Rightarrow> py_error + loop_state" where
  "names_loop isbn [] st = Inr st"
| "names_loop isbn (name # names) st =
     (case name_step isbn name st of
        Inl e \<Rightarrow> Inl e
      | Inr st' \<Rightarrow> names_loop isbn names st')"

fun rows_loop :: "book_row list \<Rightarrow> loop_state \<Rightarrow> py_error + loop_state" where
  "rows_loop [] st = Inr st"
| "rows_loop (row # rows) st =
     (case names_loop (isbn10 row) (split_authors (Some (author row))) st of
        Inl e \<Rightarrow> Inl e
      | Inr st' \<Rightarrow> rows_loop rows st')"

definition initial_state :: loop_state where
  "initial_state = \<lparr>author_name_to_id = [], authors_rows = [], book_authors_rows = []\<rparr>"

text \<open>
  \<^verbatim>\<open>process_books\<close>, from the rows read to the tables (book, authors, book_authors).
  \<^verbatim>\<open>sort_values('Author_id')\<close> is modelled by a stable sort; the Author_ids of
  \<^verbatim>\<open>authors_rows\<close> are pairwise different (see \<open>registry_ok_sorted\<close> below), so every sorting
  algorithm returns the same table.
\<close>

definition process_books ::
  "raw_book_row list \<Rightarrow>
   py_error + ((string \<times> string) list \<times> (int \<times> string) list \<times> (string \<times> int) list)" where
  "process_books rows =
     (let bdf = surviving_rows rows;
          book = book_table bdf
      in case rows_loop bdf initial_state of
           Inl e \<Rightarrow> Inl e
         | Inr st \<Rightarrow>
             Inr (book,
                  sort_key fst (authors_rows st),
                  drop_duplicates (\<lambda>x. x) (book_authors_rows st)))"

section \<open>Borrower Table Builder\<close>

record raw_borrower_row =
  ID0000id :: "string option"
  first_name :: "string option"
  last_name :: "string option"
  address :: "string option"
  city :: "string option"
  state :: "string option"
  phone :: "string option"
  ssn :: "string option"

record borrower =
  Card_id :: string
  Bname :: string
  Address :: string
  Phone :: string
  Ssn :: string

text \<open>\<^verbatim>\<open>Series.str.replace('-', '', regex=False)\<close> on one string.\<close>

definition remove_hyphens :: "string \<Rightarrow> string" where
  "remove_hyphens s = filter (\<lambda>c. c \<noteq> CHR ''-'') s"

text \<open>
  The columns composed for one row. Every column has been mapped through
  \<^verbatim>\<open>normalize_whitespace\<close> first, so every value is a string and \<^verbatim>\<open>fillna('')\<close> changes
  nothing.
\<close>

definition compose_borrower :: "raw_borrower_row \<Rightarrow> borrower" where
  "compose_borrower r =
     (let first = normalize_whitespace (first_name r);
          last = normalize_whitespace (last_name r);
          street = normalize_whitespace (address r);
          town = normalize_whitespace (city r);
          st = normalize_whitespace (state r)
      in \<lparr>Card_id = normalize_whitespace (ID0000id r),
          Bname = title_case (Some (py_strip (first @ '' '' @ last))),
          Address = py_strip_chars '' ,'' (street @ '', '' @ town @ '', '' @ st),
          Phone = normalize_whitespace (phone r),
          Ssn = remove_hyphens (normalize_whitespace (ssn r))\<rparr>)"

definition process_borrowers :: "raw_borrower_row list \<Rightarrow> borrower list" where
  "process_borrowers rows = drop_duplicates Card_id (map compose_borrower rows)"

section \<open>Notions used in the proofs\<close>

text \<open>
  A string in which every whitespace character is a space that is followed by no
  whitespace: the strings that \<open>sub_spaces\<close> returns.
\<close>

fun collapsed :: "string \<Rightarrow> bool" where
  "collapsed [] = True"
| "collapsed (c # cs) =
     (if c_isspace c
      then c = CHR '' '' \<and> (case cs of [] \<Rightarrow> True | d # _ \<Rightarrow> \<not> c_isspace d) \<and> collapsed cs
      else collapsed cs)"

text \<open>
  The names in the order in which the two loops of \<^verbatim>\<open>process_books\<close> visit them: row
  after row of \<^verbatim>\<open>bdf\<close>, and within a row the list that \<^verbatim>\<open>split_authors\<close> returns.
\<close>

definition all_names :: "book_row list \<Rightarrow> string list" where
  "all_names bdf = concat (map (\<lambda>r. split_authors (Some (author r))) bdf)"

text \<open>
  The invariant of the loops of \<^verbatim>\<open>process_books\<close>: the dict and \<^verbatim>\<open>authors_rows\<close> list the
  same authors in the same order, a key being the lower-case form of the name; the ids
  are 1, 2, ... in that order; no key is listed twice; every id of a link is the id of
  an author.
\<close>

definition registry_ok :: "loop_state \<Rightarrow> bool" where
  "registry_ok st \<longleftrightarrow>
     map fst (author_name_to_id st) = map (\<lambda>a. py_lower (snd a)) (authors_rows st)
     \<and> map snd (author_name_to_id st) = map fst (authors_rows st)
     \<and> map fst (authors_rows st) = [1..int (length (authors_rows st))]
     \<and> distinct (map fst (author_name_to_id st))
     \<and> snd ` set (book_authors_rows st) \<subseteq> fst ` set (authors_rows st)"

text \<open>A small catalogue and a small roster, on which the theorems below are instantiated.\<close>

definition example_books :: "raw_book_row list" where
  "example_books =
     [\<lparr>ISBN10 = Some ''0001'', Title = Some ''First'', Author = Some ''Jane Doe, Bob Ray''\<rparr>,
      \<lparr>ISBN10 = Some ''  '', Title = Some ''Lost'', Author = Some ''Zed''\<rparr>,
      \<lparr>ISBN10 = Some ''0001'', Title = Some ''Other'', Author = Some ''JANE DOE; al''\<rparr>,
      \<lparr>ISBN10 = Some ''0002'', Title = Some ''Second'', Author = Some ''bob ray and Jane Doe''\<rparr>]"

text \<open>A catalogue in which one author is written in two casings that survive \<^verbatim>\<open>title_case\<close>.\<close>

definition example_books_casing :: "raw_book_row list" where
  "example_books_casing =
     [\<lparr>ISBN10 = Some ''0001'', Title = Some ''First'', Author = Some ''Ann McKay; Bob Ray''\<rparr>,
      \<lparr>ISBN10 = Some ''0002'', Title = Some ''Second'', Author = Some ''BOB RAY, ANN MCKAY, Cy Lee''\<rparr>]"

definition example_borrowers :: "raw_borrower_row list" where
  "example_borrowers =
     [\<lparr>ID0000id = Some ''ID000001'', first_name = Some ''ann'', last_name = Some ''lee'',
       address = Some ''1 Main St'', city = Some ''Springfield'', state = Some ''IL'',
       phone = Some ''555-0100'', ssn = Some ''123-45-6789''\<rparr>,
      \<lparr>ID0000id = Some ''ID000001'', first_name = Some ''BOB'', last_name = Some ''RAY'',
       address = Some ''2 Elm St'', city = Some ''Dallas'', state = Some ''TX'',
       phone = Some ''555-0101'', ssn = Some ''987-65-4321''\<rparr>]"

section \<open>Whitespace normalization\<close>

lemma dropWhile_Cons_not: "dropWhile p s = a # y \<Longrightarrow> \<not> p a"
  using hd_dropWhile[of p s] by auto

lemma strip_where_idem: "strip_where p (strip_where p s) = strip_where p s"
proof (cases "dropWhile p s")
  case Nil
  show ?thesis unfolding strip_where_def Nil by simp
next
  case (Cons a y)
  then have na: "\<not> p a" by (rule dropWhile_Cons_not)
  have "dropWhile p (rev y @ [a]) = dropWhile p (rev y) @ [a]"
    using na by (simp add: dropWhile_append3) 
  then have "dropWhile p (rev (dropWhile p (rev (dropWhile p s)))) = rev (dropWhile p (rev (dropWhile p s)))"
    using Cons na by simp
  then show ?thesis by (simp add: strip_where_def)
qed

lemma collapsed_sub_spaces: "collapsed (sub_spaces s)"
proof (induction s rule: sub_spaces.induct)
  case 1
  then show ?case by simp
next
  case (2 c cs)
  show ?case
  proof (cases "c_isspace c")
    case True
    have "case sub_spaces (dropWhile c_isspace cs) of [] \<Rightarrow> True | d # _ \<Rightarrow> \<not> c_isspace d"
    proof (cases "dropWhile c_isspace cs")
      case Nil
      show ?thesis unfolding Nil by simp
    next
      case (Cons d ds)
      then have "\<not> c_isspace d" by (rule dropWhile_Cons_not)
      then show ?thesis unfolding Cons by simp
    qed
    then show ?thesis using True 2 by simp
  next
    case False
    then show ?thesis using 2 by simp
  qed
qed

lemma collapsed_fix: "collapsed s \<Longrightarrow> sub_spaces s = s"
proof (induction s rule: sub_spaces.induct)
  case 1
  then show ?case by simp
next
  case (2 c cs)
  show ?case
  proof (cases "c_isspace c")
    case True
    then have dw: "dropWhile c_isspace cs = cs" using 2(3) by (cases cs) auto
    then show ?thesis using True 2 by simp
  next
    case False
    then show ?thesis using 2 by simp
  qed
qed

lemma collapsed_append: "collapsed (xs @ ys) \<Longrightarrow> collapsed xs \<and> collapsed ys"
proof (induction xs)
  case Nil
  then show ?case by simp
next
  case (Cons a xs)
  have tl: "collapsed (xs @ ys)"
    using Cons.prems by (simp split: if_splits)
  then have ih: "collapsed xs \<and> collapsed ys" by (rule Cons.IH)
  show ?case
  proof (cases xs)
    case Nil
    then show ?thesis using Cons.prems ih by (simp split: if_splits)
  next
    case (Cons d ds)
    then show ?thesis using Cons.prems ih by (simp split: if_splits)
  qed
qed

lemma collapsed_strip: "collapsed s \<Longrightarrow> collapsed (strip_where p s)"
proof -
  assume c: "collapsed s"
  have "collapsed (dropWhile p s)"
    using c collapsed_append[of "takeWhile p s" "dropWhile p s"] by simp
  moreover have "dropWhile p s = rev (dropWhile p (rev (dropWhile p s))) @ rev (takeWhile p (rev (dropWhile p s)))"
    using takeWhile_dropWhile_id[of p "rev (dropWhile p s)"] rev_append[of "takeWhile p (rev (dropWhile p s))" "dropWhile p (rev (dropWhile p s))"]
    by simp
  ultimately have "collapsed (rev (dropWhile p (rev (dropWhile p s))) @ rev (takeWhile p (rev (dropWhile p s))))"
    by simp
  then show ?thesis unfolding strip_where_def using collapsed_append by blast
qed

text \<open>
  C9. \<^verbatim>\<open>normalize_whitespace\<close> is idempotent: normalizing the result of a normalization
  returns it unchanged. The input is any cell, a string or the missing marker.
\<close>

theorem normalize_whitespace_idempotent:
  "normalize_whitespace (Some (normalize_whitespace v)) = normalize_whitespace v"
proof (cases v)
  case None
  then show ?thesis by (simp add: normalize_whitespace_def py_strip_def strip_where_def)
next
  case (Some s)
  have "collapsed (py_strip (sub_spaces s))"
    unfolding py_strip_def by (rule collapsed_strip) (rule collapsed_sub_spaces)
  then have "sub_spaces (py_strip (sub_spaces s)) = py_strip (sub_spaces s)"
    by (rule collapsed_fix)
  then show ?thesis using Some
    by (simp add: normalize_whitespace_def py_strip_def strip_where_idem)
qed

theorem normalize_whitespace_idempotent_witness:
  "normalize_whitespace (Some (normalize_whitespace (Some [CHR '' '', CHR ''a'', CHR 0x09, CHR '' '', CHR ''b'', CHR 0x0A])))
     = normalize_whitespace (Some [CHR '' '', CHR ''a'', CHR 0x09, CHR '' '', CHR ''b'', CHR 0x0A])
   \<and> normalize_whitespace (Some [CHR '' '', CHR ''a'', CHR 0x09, CHR '' '', CHR ''b'', CHR 0x0A]) = ''a b''"
proof
  show "normalize_whitespace (Some (normalize_whitespace (Some [CHR '' '', CHR ''a'', CHR 0x09, CHR '' '', CHR ''b'', CHR 0x0A])))
     = normalize_whitespace (Some [CHR '' '', CHR ''a'', CHR 0x09, CHR '' '', CHR ''b'', CHR 0x0A])"
    by (rule normalize_whitespace_idempotent)
  show "normalize_whitespace (Some [CHR '' '', CHR ''a'', CHR 0x09, CHR '' '', CHR ''b'', CHR 0x0A]) = ''a b''"
    by code_simp
qed

section \<open>Conditional title-casing\<close>

lemma char_code_bound: "(of_char c :: nat) < 256"
proof -
  have "(of_char c :: nat) mod 256 < 256" by (rule mod_less_divisor) simp
  then show ?thesis by (simp only: of_char_mod_256)
qed











section \<open>Borrower composition\<close>

lemma c1_bname: "title_case (Some (py_strip (normalize_whitespace (Some ''jane'') @ '' '' @ normalize_whitespace (Some ''DOE'')))) = ''jane DOE''"
  by code_simp

lemma c1_address: "py_strip_chars '' ,'' (normalize_whitespace (Some ''1 Main St'') @ '', '' @ normalize_whitespace (Some ''Springfield'') @ '', '' @ normalize_whitespace (Some ''IL'')) = ''1 Main St, Springfield, IL''"
  by code_simp

lemma c1_ssn: "remove_hyphens (normalize_whitespace (Some ''123-45-6789'')) = ''123456789''"
  by code_simp

lemma drop_duplicates_single: "drop_duplicates key [x] = [x]"
  by (simp add: drop_duplicates_def)

text \<open>
  C1, as the specification states it, fails: the first and last name are joined before
  \<^verbatim>\<open>title_case\<close> sees them, the joined string \<^verbatim>\<open>jane DOE\<close> is neither entirely
  lower-case nor entirely upper-case, and \<^verbatim>\<open>title_case\<close> returns such a string unchanged.
\<close>

theorem process_borrowers_jane_doe_counterexample:
  "map Bname (process_borrowers
     [\<lparr>ID0000id = Some ''ID000001'', first_name = Some ''jane'', last_name = Some ''DOE'',
       address = Some ''1 Main St'', city = Some ''Springfield'', state = Some ''IL'',
       phone = Some ''(555) 010-0000'', ssn = Some ''123-45-6789''\<rparr>]) \<noteq> [''Jane Doe'']"
  by code_simp

text \<open>
  C1, amended. For the borrower row with first_name \<^verbatim>\<open>jane\<close>, last_name \<^verbatim>\<open>DOE\<close>, address
  \<^verbatim>\<open>1 Main St\<close>, city \<^verbatim>\<open>Springfield\<close>, state \<^verbatim>\<open>IL\<close> and ssn \<^verbatim>\<open>123-45-6789\<close>, whatever its
  id and phone, \<^verbatim>\<open>process_borrowers\<close> produces the one borrower with Bname \<^verbatim>\<open>jane DOE\<close>,
  Address \<^verbatim>\<open>1 Main St, Springfield, IL\<close> and Ssn \<^verbatim>\<open>123456789\<close>.
\<close>

theorem process_borrowers_jane_doe:
  "process_borrowers
     [\<lparr>ID0000id = i, first_name = Some ''jane'', last_name = Some ''DOE'',
       address = Some ''1 Main St'', city = Some ''Springfield'', state = Some ''IL'',
       phone = p, ssn = Some ''123-45-6789''\<rparr>]
   = [\<lparr>Card_id = normalize_whitespace i, Bname = ''jane DOE'',
        Address = ''1 Main St, Springfield, IL'', Phone = normalize_whitespace p,
        Ssn = ''123456789''\<rparr>]"
  unfolding process_borrowers_def list.map drop_duplicates_single
  by (simp add: compose_borrower_def c1_bname c1_address c1_ssn del: append.simps)

theorem process_borrowers_jane_doe_witness:
  "process_borrowers
     [\<lparr>ID0000id = Some ''ID000001'', first_name = Some ''jane'', last_name = Some ''DOE'',
       address = Some ''1 Main St'', city = Some ''Springfield'', state = Some ''IL'',
       phone = None, ssn = Some ''123-45-6789''\<rparr>]
   = [\<lparr>Card_id = ''ID000001'', Bname = ''jane DOE'',
        Address = ''1 Main St, Springfield, IL'', Phone = [],
        Ssn = ''123456789''\<rparr>]"
proof -
  have a: "normalize_whitespace (Some ''ID000001'') = ''ID000001''" by code_simp
  have b: "normalize_whitespace None = []" by code_simp
  show ?thesis
    using process_borrowers_jane_doe[of "Some ''ID000001''" None] unfolding a b .
qed

section \<open>The Ssn column\<close>

lemma keep_first_subset: "set (keep_first key seen xs) \<subseteq> set xs"
  by (induction xs arbitrary: seen) auto

lemma drop_duplicates_subset: "set (drop_duplicates key xs) \<subseteq> set xs"
  by (simp add: drop_duplicates_def keep_first_subset)

text \<open>
  What line 166 computes. Every borrower of the output table comes from a row of the
  input, and its Ssn is the whitespace-normalized ssn field of that row with every hyphen
  removed: no hyphen is left in it, and it consists of decimal digits only exactly when
  the normalized ssn field holds nothing but decimal digits and hyphens.
\<close>

lemma ssn_hyphens_removed:
  assumes "b \<in> set (process_borrowers rows)"
  shows "\<exists>r \<in> set rows.
           b = compose_borrower r
           \<and> Ssn b = filter (\<lambda>c. c \<noteq> CHR ''-'') (normalize_whitespace (ssn r))
           \<and> CHR ''-'' \<notin> set (Ssn b)
           \<and> (list_all is_decimal_digit (Ssn b) \<longleftrightarrow>
                list_all (\<lambda>c. is_decimal_digit c \<or> c = CHR ''-'') (normalize_whitespace (ssn r)))"
proof -
  from assms have "b \<in> set (map compose_borrower rows)"
    using drop_duplicates_subset[of Card_id "map compose_borrower rows"]
    unfolding process_borrowers_def by blast
  then obtain r where r: "r \<in> set rows" and b: "b = compose_borrower r" by auto
  have s: "Ssn b = filter (\<lambda>c. c \<noteq> CHR ''-'') (normalize_whitespace (ssn r))"
    unfolding b by (simp add: compose_borrower_def Let_def remove_hyphens_def)
  have nd: "\<not> is_decimal_digit (CHR ''-'')" by code_simp
  have h: "CHR ''-'' \<notin> set (Ssn b)" unfolding s by simp
  have d: "list_all is_decimal_digit (Ssn b) \<longleftrightarrow>
                list_all (\<lambda>c. is_decimal_digit c \<or> c = CHR ''-'') (normalize_whitespace (ssn r))"
    unfolding s list_all_iff using nd by auto
  show ?thesis using r b s h d by blast
qed

lemma ssn_hyphens_removed_example:
  "\<exists>r \<in> set [\<lparr>ID0000id = Some ''ID000002'', first_name = Some ''John'', last_name = Some ''Roe'',
       address = Some ''2 Elm St'', city = Some ''Dallas'', state = Some ''TX'',
       phone = Some ''555'', ssn = Some '' 123-45-6789 ''\<rparr>].
     Ssn (compose_borrower r) = ''123456789'' \<and> list_all is_decimal_digit (Ssn (compose_borrower r))"
proof -
  let ?r = "\<lparr>ID0000id = Some ''ID000002'', first_name = Some ''John'', last_name = Some ''Roe'',
       address = Some ''2 Elm St'', city = Some ''Dallas'', state = Some ''TX'',
       phone = Some ''555'', ssn = Some '' 123-45-6789 ''\<rparr>"
  have m: "compose_borrower ?r \<in> set (process_borrowers [?r])" by code_simp
  have n: "filter (\<lambda>c. c \<noteq> CHR ''-'') (normalize_whitespace (Some '' 123-45-6789 '')) = ''123456789''"
    by code_simp
  have dg: "list_all (\<lambda>c. is_decimal_digit c \<or> c = CHR ''-'') (normalize_whitespace (Some '' 123-45-6789 ''))"
    by code_simp
  from ssn_hyphens_removed[OF m] obtain r where
    r: "r \<in> set [?r]"
    and s: "Ssn (compose_borrower ?r) = filter (\<lambda>c. c \<noteq> CHR ''-'') (normalize_whitespace (ssn r))"
    and d: "list_all is_decimal_digit (Ssn (compose_borrower ?r)) \<longleftrightarrow>
              list_all (\<lambda>c. is_decimal_digit c \<or> c = CHR ''-'') (normalize_whitespace (ssn r))"
    by blast
  from r have e: "ssn r = Some '' 123-45-6789 ''" by simp
  have "Ssn (compose_borrower ?r) = ''123456789''"
    using s n unfolding e by (rule trans)
  moreover have "list_all is_decimal_digit (Ssn (compose_borrower ?r))"
    using d dg unfolding e by (rule iffD2)
  ultimately show ?thesis by simp
qed

text \<open>
  C3. The Ssn column is to hold digits only: the specification says so, and so does the
  comment on line 166 (\<^verbatim>\<open>keeps Ssn as digits only\<close>). The code removes the hyphens and
  nothing else. For the row below, whose ssn field is \<^verbatim>\<open>12A-45 678\<close>, the Ssn returned
  is the normalized field without its hyphen, as the claim says, but it holds a letter
  and a space: it does not consist of digits only.
\<close>

theorem ssn_not_digits_only:
  "map Ssn (process_borrowers
     [\<lparr>ID0000id = Some ''ID000002'', first_name = Some ''John'', last_name = Some ''Roe'',
       address = Some ''2 Elm St'', city = Some ''Dallas'', state = Some ''TX'',
       phone = Some ''555'', ssn = Some ''12A-45 678''\<rparr>]) = [''12A45 678'']
   \<and> \<not> list_all is_decimal_digit ''12A45 678''"
  by code_simp

section \<open>Keeping first occurrences\<close>

lemma keep_first_set_cong:
  "set seen = set seen' \<Longrightarrow> keep_first key seen xs = keep_first key seen' xs"
proof (induction xs arbitrary: seen seen')
  case Nil
  then show ?case by simp
next
  case (Cons x xs)
  have "set (key x # seen) = set (key x # seen')" using Cons.prems by simp
  then have "keep_first key (key x # seen) xs = keep_first key (key x # seen') xs"
    by (rule Cons.IH)
  moreover have "keep_first key seen xs = keep_first key seen' xs"
    using Cons.prems by (rule Cons.IH)
  ultimately show ?case using Cons.prems by simp
qed

lemma keep_first_keys: "key ` set (keep_first key seen xs) = key ` set xs - set seen"
  by (induction xs arbitrary: seen) auto

lemma keep_first_distinct: "distinct (map key (keep_first key seen xs))"
proof (induction xs arbitrary: seen)
  case Nil
  then show ?case by simp
next
  case (Cons x xs)
  have "key x \<notin> key ` set (keep_first key (key x # seen) xs)"
    unfolding keep_first_keys by simp
  then show ?case using Cons.IH by simp
qed

lemma keep_first_subseq: "subseq (keep_first key seen xs) xs"
  by (induction xs arbitrary: seen) auto

lemma keep_first_find:
  "k \<notin> set seen \<Longrightarrow>
   find (\<lambda>x. key x = k) (keep_first key seen xs) = find (\<lambda>x. key x = k) xs"
proof (induction xs arbitrary: seen)
  case Nil
  then show ?case by simp
next
  case (Cons x xs)
  show ?case
  proof (cases "key x = k")
    case True
    then show ?thesis using Cons.prems by simp
  next
    case False
    then have "k \<notin> set (key x # seen)" using Cons.prems by simp
    then have "find (\<lambda>x. key x = k) (keep_first key (key x # seen) xs) = find (\<lambda>x. key x = k) xs"
      by (rule Cons.IH)
    moreover have "find (\<lambda>x. key x = k) (keep_first key seen xs) = find (\<lambda>x. key x = k) xs"
      using Cons.prems by (rule Cons.IH)
    ultimately show ?thesis using False by simp
  qed
qed

lemma keep_first_append:
  "keep_first key seen (xs @ ys) = keep_first key seen xs @ keep_first key (map key xs @ seen) ys"
proof (induction xs arbitrary: seen)
  case Nil
  then show ?case by simp
next
  case (Cons x xs)
  have a: "keep_first key (map key xs @ key x # seen) ys = keep_first key (key x # map key xs @ seen) ys"
    by (rule keep_first_set_cong) auto
  have b: "key x \<in> set seen \<Longrightarrow> keep_first key (map key xs @ seen) ys = keep_first key (key x # map key xs @ seen) ys"
    by (rule keep_first_set_cong) auto
  show ?case using a b Cons.IH by simp
qed

lemma keep_first_positions_seen:
  "keep_first key seen xs =
     map (nth xs)
       (filter (\<lambda>i. key (xs ! i) \<notin> set seen \<and> (\<forall>j<i. key (xs ! j) \<noteq> key (xs ! i)))
          [0..<length xs])"
proof (induction xs arbitrary: seen)
  case Nil
  then show ?case by simp
next
  case (Cons x xs)
  let ?P = "\<lambda>sn ys i. key (ys ! i) \<notin> set sn \<and> (\<forall>j<i. key (ys ! j) \<noteq> key (ys ! i))"
  have shift: "[0..<length (x # xs)] = 0 # map Suc [0..<length xs]"
    by (simp add: upt_conv_Cons map_Suc_upt del: upt_Suc)
  have suc: "?P seen (x # xs) (Suc i) \<longleftrightarrow> key x \<noteq> key (xs ! i) \<and> ?P seen xs i" for i
    by (auto simp: less_Suc_eq_0_disj)
  have tl: "map (nth (x # xs)) (filter (?P seen (x # xs)) (map Suc [0..<length xs]))
          = map (nth xs) (filter (\<lambda>i. key x \<noteq> key (xs ! i) \<and> ?P seen xs i) [0..<length xs])"
    unfolding filter_map map_map comp_def suc by simp
  show ?case
  proof (cases "key x \<in> set seen")
    case True
    have "filter (\<lambda>i. key x \<noteq> key (xs ! i) \<and> ?P seen xs i) [0..<length xs]
            = filter (?P seen xs) [0..<length xs]"
      by (rule filter_cong) (use True in auto)
    then have "map (nth (x # xs)) (filter (?P seen (x # xs)) [0..<length (x # xs)])
            = map (nth xs) (filter (?P seen xs) [0..<length xs])"
      unfolding shift using True tl by simp
    then show ?thesis using True Cons.IH[of seen] by simp
  next
    case False
    have "filter (\<lambda>i. key x \<noteq> key (xs ! i) \<and> ?P seen xs i) [0..<length xs]
            = filter (?P (key x # seen) xs) [0..<length xs]"
      by (rule filter_cong) auto
    then have "map (nth (x # xs)) (filter (?P seen (x # xs)) [0..<length (x # xs)])
            = x # map (nth xs) (filter (?P (key x # seen) xs) [0..<length xs])"
      unfolding shift using False tl by simp
    then show ?thesis using False Cons.IH[of "key x # seen"] by simp
  qed
qed

lemma seen_loop_keep_first:
  "set sl = seen \<Longrightarrow> seen_loop ns seen out = out @ keep_first py_lower sl ns"
proof (induction ns arbitrary: sl seen out)
  case Nil
  then show ?case by simp
next
  case (Cons n ns)
  have "set (py_lower n # sl) = insert (py_lower n) seen" using Cons.prems by simp
  then have a: "seen_loop ns (insert (py_lower n) seen) (out @ [n]) = (out @ [n]) @ keep_first py_lower (py_lower n # sl) ns"
    by (rule Cons.IH)
  have b: "seen_loop ns seen out = out @ keep_first py_lower sl ns"
    using Cons.prems by (rule Cons.IH)
  show ?case using a b Cons.prems by (simp add: Let_def)
qed

section \<open>Parsing an author field\<close>

text \<open>A blank field has no names, so the early return of \<^verbatim>\<open>split_authors\<close> is no special case.\<close>

lemma strip_where_Nil_iff: "strip_where p s = [] \<longleftrightarrow> (\<forall>c \<in> set s. p c)"
proof (cases "dropWhile p s")
  case Nil
  then have "\<forall>c \<in> set s. p c" by simp
  moreover have "strip_where p s = []" unfolding strip_where_def Nil by simp
  ultimately show ?thesis by simp
next
  case (Cons a y)
  then have na: "\<not> p a" by (rule dropWhile_Cons_not)
  have "a \<in> set (dropWhile p s)" unfolding Cons by simp
  then have "a \<in> set s" using set_dropWhileD by fast
  then have "\<not> (\<forall>c \<in> set s. p c)" using na by blast
  moreover have "dropWhile p (rev y @ [a]) \<noteq> []" using na by simp
  then have "strip_where p s \<noteq> []" unfolding strip_where_def Cons by simp
  ultimately show ?thesis by simp
qed

lemma blank_sub_and: "\<forall>c \<in> set s. c_isspace c \<Longrightarrow> sub_and s = s"
proof (induction s)
  case Nil
  then show ?case by simp
next
  case (Cons c cs)
  have "dropWhile c_isspace (c # cs) = []" using Cons.prems by simp
  then have "match_and (c # cs) = None"
    unfolding match_and_def Let_def py_lower_def by simp
  then show ?case using Cons by simp
qed

lemma space_not_amp: "c_isspace c \<Longrightarrow> c \<noteq> CHR ''&''"
proof
  assume "c_isspace c" and "c = CHR ''&''"
  then have "c_isspace (CHR ''&'')" by simp
  moreover have "\<not> c_isspace (CHR ''&'')" by code_simp
  ultimately show False by simp
qed

lemma space_not_separator: "c_isspace c \<Longrightarrow> \<not> is_separator c"
proof
  assume s: "c_isspace c" and "is_separator c"
  then consider "c = CHR '';''" | "c = CHR '',''" | "c = CHR ''|''"
    unfolding is_separator_def by blast
  then have "\<not> c_isspace c"
  proof cases
    case 1
    have "\<not> c_isspace (CHR '';'')" by code_simp
    then show ?thesis using 1 by simp
  next
    case 2
    have "\<not> c_isspace (CHR '','')" by code_simp
    then show ?thesis using 2 by simp
  next
    case 3
    have "\<not> c_isspace (CHR ''|'')" by code_simp
    then show ?thesis using 3 by simp
  qed
  then show False using s by simp
qed

lemma blank_replace_amp: "\<forall>c \<in> set s. c_isspace c \<Longrightarrow> replace_amp s = s"
  unfolding replace_amp_def by (induction s) (auto dest: space_not_amp)

lemma blank_re_split: "\<forall>c \<in> set s. c_isspace c \<Longrightarrow> re_split is_separator s = [s]"
  by (induction s) (auto dest: space_not_separator)

lemma sub_spaces_set: "set (sub_spaces s) \<subseteq> insert (CHR '' '') (set s)"
proof (induction s rule: sub_spaces.induct)
  case 1
  then show ?case by simp
next
  case (2 c cs)
  show ?case
  proof (cases "c_isspace c")
    case True
    then have "set (sub_spaces (dropWhile c_isspace cs)) \<subseteq> insert (CHR '' '') (set (dropWhile c_isspace cs))"
      by (rule 2)
    moreover have "set (dropWhile c_isspace cs) \<subseteq> set cs"
      using set_dropWhileD by fast
    ultimately show ?thesis using True by auto
  next
    case False
    then have "set (sub_spaces cs) \<subseteq> insert (CHR '' '') (set cs)" by (rule 2)
    then show ?thesis using False by auto
  qed
qed

lemma space_is_space: "c_isspace (CHR '' '')"
  by code_simp

lemma blank_normalize: "\<forall>c \<in> set s. c_isspace c \<Longrightarrow> normalize_whitespace (Some s) = []"
proof -
  assume b: "\<forall>c \<in> set s. c_isspace c"
  have "\<forall>c \<in> set (sub_spaces s). c_isspace c"
    using sub_spaces_set[of s] b space_is_space by auto
  then show ?thesis
    unfolding normalize_whitespace_def py_strip_def by (simp add: strip_where_Nil_iff)
qed

lemma blank_author_names: "py_strip f = [] \<Longrightarrow> author_names f = []"
proof -
  assume "py_strip f = []"
  then have b: "\<forall>c \<in> set f. c_isspace c"
    unfolding py_strip_def strip_where_Nil_iff .
  show ?thesis
    unfolding author_names_def Let_def
    by (simp add: blank_sub_and[OF b] blank_replace_amp[OF b] blank_re_split[OF b] blank_normalize[OF b])
qed

lemma split_authors_keep_first:
  "split_authors (Some f) = keep_first py_lower [] (author_names f)"
proof (cases "py_strip f = []")
  case True
  then show ?thesis by (simp add: split_authors_def blank_author_names)
next
  case False
  then show ?thesis
    by (simp add: split_authors_def seen_loop_keep_first[of "[]"])
qed

lemma ex_jane_three: "split_authors (Some ''Jane Doe; jane doe, JANE DOE'') = [''Jane Doe'']"
  by code_simp

text \<open>
  C4. \<^verbatim>\<open>split_authors\<close> de-duplicates the cleaned name parts (\<open>author_names\<close>: the parts
  that do not normalize to the empty string, each through \<^verbatim>\<open>title_case\<close>)
  case-insensitively. Its result is the list of the cleaned parts at the positions of
  first occurrence, in increasing position: a part is kept exactly when no earlier part
  has the same lower-case form, so the names come in the order in which they first
  appeared and in their first-seen casing. In particular no two names of the result
  have the same lower-case form, the result is a subsequence of the cleaned parts, and
  for every lower-case key the name of the result with that key is the first cleaned
  part with that key. A missing field has no authors, and
  \<^verbatim>\<open>split_authors("Jane Doe; jane doe, JANE DOE")\<close> is \<^verbatim>\<open>["Jane Doe"]\<close>.
\<close>

theorem split_authors_dedup:
  "split_authors None = []
   \<and> split_authors (Some f) =
       map (nth (author_names f))
         (filter (\<lambda>i. \<forall>j<i. py_lower (author_names f ! j) \<noteq> py_lower (author_names f ! i))
            [0..<length (author_names f)])
   \<and> distinct (map py_lower (split_authors (Some f)))
   \<and> subseq (split_authors (Some f)) (author_names f)
   \<and> (\<forall>k. find (\<lambda>n. py_lower n = k) (split_authors (Some f))
           = find (\<lambda>n. py_lower n = k) (author_names f))
   \<and> split_authors (Some ''Jane Doe; jane doe, JANE DOE'') = [''Jane Doe'']"
proof -
  have a: "split_authors None = []" by (simp add: split_authors_def)
  have p: "split_authors (Some f) =
       map (nth (author_names f))
         (filter (\<lambda>i. \<forall>j<i. py_lower (author_names f ! j) \<noteq> py_lower (author_names f ! i))
            [0..<length (author_names f)])"
    unfolding split_authors_keep_first keep_first_positions_seen by simp
  have b: "distinct (map py_lower (split_authors (Some f)))"
    unfolding split_authors_keep_first by (rule keep_first_distinct)
  have c: "subseq (split_authors (Some f)) (author_names f)"
    unfolding split_authors_keep_first by (rule keep_first_subseq)
  have d: "\<forall>k. find (\<lambda>n. py_lower n = k) (split_authors (Some f))
           = find (\<lambda>n. py_lower n = k) (author_names f)"
    unfolding split_authors_keep_first by (simp add: keep_first_find)
  from a p b c d ex_jane_three show ?thesis by (intro conjI)
qed

theorem split_authors_dedup_witness:
  "author_names ''Ann McKay, Bob Ray; ANN MCKAY & bob ray''
     = [''Ann McKay'', ''Bob Ray'', ''Ann Mckay'', ''Bob Ray'']
   \<and> split_authors (Some ''Ann McKay, Bob Ray; ANN MCKAY & bob ray'') = [''Ann McKay'', ''Bob Ray'']
   \<and> map (nth [''Ann McKay'', ''Bob Ray'', ''Ann Mckay'', ''Bob Ray''])
        (filter (\<lambda>i. \<forall>j<i. py_lower ([''Ann McKay'', ''Bob Ray'', ''Ann Mckay'', ''Bob Ray''] ! j)
                           \<noteq> py_lower ([''Ann McKay'', ''Bob Ray'', ''Ann Mckay'', ''Bob Ray''] ! i))
           [0..<length [''Ann McKay'', ''Bob Ray'', ''Ann Mckay'', ''Bob Ray'']])
       = [''Ann McKay'', ''Bob Ray'']
   \<and> py_lower ''Ann Mckay'' = py_lower ''Ann McKay''
   \<and> ''Ann Mckay'' \<noteq> ''Ann McKay''"
proof -
  have n: "author_names ''Ann McKay, Bob Ray; ANN MCKAY & bob ray''
     = [''Ann McKay'', ''Bob Ray'', ''Ann Mckay'', ''Bob Ray'']"
    by code_simp
  have s: "split_authors (Some ''Ann McKay, Bob Ray; ANN MCKAY & bob ray'') = [''Ann McKay'', ''Bob Ray'']"
    by code_simp
  have l: "py_lower ''Ann Mckay'' = py_lower ''Ann McKay''" by code_simp
  have "split_authors (Some ''Ann McKay, Bob Ray; ANN MCKAY & bob ray'') =
       map (nth (author_names ''Ann McKay, Bob Ray; ANN MCKAY & bob ray''))
         (filter (\<lambda>i. \<forall>j<i. py_lower (author_names ''Ann McKay, Bob Ray; ANN MCKAY & bob ray'' ! j)
                            \<noteq> py_lower (author_names ''Ann McKay, Bob Ray; ANN MCKAY & bob ray'' ! i))
            [0..<length (author_names ''Ann McKay, Bob Ray; ANN MCKAY & bob ray'')])"
    using split_authors_dedup[of "''Ann McKay, Bob Ray; ANN MCKAY & bob ray''"] by (elim conjE)
  then have e: "map (nth [''Ann McKay'', ''Bob Ray'', ''Ann Mckay'', ''Bob Ray''])
        (filter (\<lambda>i. \<forall>j<i. py_lower ([''Ann McKay'', ''Bob Ray'', ''Ann Mckay'', ''Bob Ray''] ! j)
                           \<noteq> py_lower ([''Ann McKay'', ''Bob Ray'', ''Ann Mckay'', ''Bob Ray''] ! i))
           [0..<length [''Ann McKay'', ''Bob Ray'', ''Ann Mckay'', ''Bob Ray'']])
       = [''Ann McKay'', ''Bob Ray'']"
    unfolding n s by (rule sym)
  have d: "''Ann Mckay'' \<noteq> ''Ann McKay''" by simp
  from n s e l d show ?thesis by (intro conjI)
qed

section \<open>The loops of the Book Table Builder\<close>

text \<open>The result of one step of the inner loop, which never raises.\<close>

lemma name_step_new:
  "map_of (author_name_to_id st) (py_lower name) = None \<Longrightarrow>
   name_step isbn name st =
     Inr \<lparr>author_name_to_id = author_name_to_id st @ [(py_lower name, int (length (author_name_to_id st)) + 1)],
          authors_rows = authors_rows st @ [(int (length (author_name_to_id st)) + 1, name)],
          book_authors_rows = book_authors_rows st @ [(isbn, int (length (author_name_to_id st)) + 1)]\<rparr>"
  by (cases st) (simp add: name_step_def Let_def dict_contains_def dict_get_def dict_add_def map_add_def)

lemma name_step_old:
  "map_of (author_name_to_id st) (py_lower name) = Some aid \<Longrightarrow>
   name_step isbn name st =
     Inr (st\<lparr>book_authors_rows := book_authors_rows st @ [(isbn, aid)]\<rparr>)"
  by (simp add: name_step_def Let_def dict_contains_def dict_get_def dict_add_def)


lemma upto_snoc: "[1..1 + int n] = [1..int n] @ [int n + 1]"
proof -
  have "1 \<le> 1 + int n" by simp
  then have "[1..1 + int n] = [1..1 + int n - 1] @ [1 + int n]" by (rule upto_rec2)
  moreover have "1 + int n - 1 = int n" by simp
  moreover have "1 + int n = int n + 1" by simp
  ultimately show ?thesis by (simp only:)
qed

lemma registry_ok_lengths:
  "registry_ok st \<Longrightarrow> length (author_name_to_id st) = length (authors_rows st)"
proof -
  assume "registry_ok st"
  then have "map snd (author_name_to_id st) = map fst (authors_rows st)"
    by (simp add: registry_ok_def)
  then show ?thesis by (rule map_eq_imp_length_eq)
qed

lemma registry_ok_link:
  "registry_ok st \<Longrightarrow> aid \<in> fst ` set (authors_rows st) \<Longrightarrow>
   registry_ok (st\<lparr>book_authors_rows := book_authors_rows st @ [(isbn, aid)]\<rparr>)"
  unfolding registry_ok_def by auto

lemma name_step_inv:
  assumes ok: "registry_ok st"
  shows "\<exists>st'. name_step isbn name st = Inr st' \<and> registry_ok st'
           \<and> map snd (authors_rows st') =
               map snd (authors_rows st) @ keep_first py_lower (map fst (author_name_to_id st)) [name]
           \<and> (\<exists>aid. book_authors_rows st' = book_authors_rows st @ [(isbn, aid)])"
proof (cases "map_of (author_name_to_id st) (py_lower name)")
  case None
  let ?n = "int (length (author_name_to_id st)) + 1"
  let ?st' = "\<lparr>author_name_to_id = author_name_to_id st @ [(py_lower name, ?n)],
          authors_rows = authors_rows st @ [(?n, name)],
          book_authors_rows = book_authors_rows st @ [(isbn, ?n)]\<rparr>"
  have step: "name_step isbn name st = Inr ?st'" using None by (rule name_step_new)
  have len: "length (author_name_to_id st) = length (authors_rows st)"
    using ok by (rule registry_ok_lengths)
  have notin: "py_lower name \<notin> set (map fst (author_name_to_id st))"
    using None by (simp add: map_of_eq_None_iff)
  have ids: "map fst (authors_rows st) = [1..int (length (authors_rows st))]"
    using ok by (simp add: registry_ok_def)
  have "map fst (authors_rows st) @ [int (length (authors_rows st)) + 1]
          = [1..1 + int (length (authors_rows st))]"
    unfolding upto_snoc using ids by simp
  then have r: "registry_ok ?st'"
    using ok notin unfolding registry_ok_def by (auto simp: len)
  have a: "map snd (authors_rows ?st') =
               map snd (authors_rows st) @ keep_first py_lower (map fst (author_name_to_id st)) [name]"
    using notin by simp
  show ?thesis
  proof (intro exI conjI)
    show "name_step isbn name st = Inr ?st'" by (rule step)
    show "registry_ok ?st'" by (rule r)
    show "map snd (authors_rows ?st') =
               map snd (authors_rows st) @ keep_first py_lower (map fst (author_name_to_id st)) [name]"
      by (rule a)
    show "book_authors_rows ?st' = book_authors_rows st @ [(isbn, ?n)]" by simp
  qed
next
  case (Some aid)
  let ?st' = "st\<lparr>book_authors_rows := book_authors_rows st @ [(isbn, aid)]\<rparr>"
  have step: "name_step isbn name st = Inr ?st'" using Some by (rule name_step_old)
  have mem: "(py_lower name, aid) \<in> set (author_name_to_id st)"
    using Some by (rule map_of_SomeD)
  then have isin: "py_lower name \<in> set (map fst (author_name_to_id st))" by force
  have eq: "map snd (author_name_to_id st) = map fst (authors_rows st)"
    using ok unfolding registry_ok_def by blast
  from mem have "aid \<in> set (map snd (author_name_to_id st))" by force
  then have "aid \<in> set (map fst (authors_rows st))" unfolding eq .
  then have "aid \<in> fst ` set (authors_rows st)" by simp
  with ok have r: "registry_ok ?st'" by (rule registry_ok_link)
  have a: "map snd (authors_rows ?st') =
               map snd (authors_rows st) @ keep_first py_lower (map fst (author_name_to_id st)) [name]"
    using isin by simp
  show ?thesis
  proof (intro exI conjI)
    show "name_step isbn name st = Inr ?st'" by (rule step)
    show "registry_ok ?st'" by (rule r)
    show "map snd (authors_rows ?st') =
               map snd (authors_rows st) @ keep_first py_lower (map fst (author_name_to_id st)) [name]"
      by (rule a)
    show "book_authors_rows ?st' = book_authors_rows st @ [(isbn, aid)]" by simp
  qed
qed

lemma registry_ok_keys:
  "registry_ok st \<Longrightarrow> map fst (author_name_to_id st) = map py_lower (map snd (authors_rows st))"
  by (simp add: registry_ok_def)

lemma keep_first_next_seen:
  "set seen' = set seen \<union> key ` set (keep_first key seen xs) \<Longrightarrow>
   keep_first key seen (xs @ ys) = keep_first key seen xs @ keep_first key seen' ys"
proof -
  assume s: "set seen' = set seen \<union> key ` set (keep_first key seen xs)"
  have "set (map key xs @ seen) = set seen'"
    unfolding s keep_first_keys by auto
  then have "keep_first key (map key xs @ seen) ys = keep_first key seen' ys"
    by (rule keep_first_set_cong)
  then show ?thesis by (simp add: keep_first_append)
qed


lemma names_loop_inv:
  assumes "registry_ok st"
  shows "\<exists>st'. names_loop isbn names st = Inr st' \<and> registry_ok st'
           \<and> map snd (authors_rows st') =
               map snd (authors_rows st) @ keep_first py_lower (map fst (author_name_to_id st)) names
           \<and> (\<exists>new. book_authors_rows st' = book_authors_rows st @ new \<and> fst ` set new \<subseteq> {isbn})"
  using assms
proof (induction names arbitrary: st)
  case Nil
  then show ?case by simp
next
  case (Cons name names)
  from name_step_inv[OF Cons.prems, of isbn name] obtain st1 aid where
    s1: "name_step isbn name st = Inr st1" and ok1: "registry_ok st1"
    and a1: "map snd (authors_rows st1) =
               map snd (authors_rows st) @ keep_first py_lower (map fst (author_name_to_id st)) [name]"
    and l1: "book_authors_rows st1 = book_authors_rows st @ [(isbn, aid)]"
    by blast
  from Cons.IH[OF ok1] obtain st' new where
    s2: "names_loop isbn names st1 = Inr st'" and ok2: "registry_ok st'"
    and a2: "map snd (authors_rows st') =
               map snd (authors_rows st1) @ keep_first py_lower (map fst (author_name_to_id st1)) names"
    and l2: "book_authors_rows st' = book_authors_rows st1 @ new" and i2: "fst ` set new \<subseteq> {isbn}"
    by blast
  have seen: "set (map fst (author_name_to_id st1)) =
      set (map fst (author_name_to_id st)) \<union> py_lower ` set (keep_first py_lower (map fst (author_name_to_id st)) [name])"
    unfolding registry_ok_keys[OF ok1] registry_ok_keys[OF Cons.prems] a1 by auto
  have k: "keep_first py_lower (map fst (author_name_to_id st)) ([name] @ names) =
        keep_first py_lower (map fst (author_name_to_id st)) [name]
        @ keep_first py_lower (map fst (author_name_to_id st1)) names"
    using seen by (rule keep_first_next_seen)
  have "names_loop isbn (name # names) st = Inr st'" using s1 s2 by simp
  moreover have "map snd (authors_rows st') =
               map snd (authors_rows st) @ keep_first py_lower (map fst (author_name_to_id st)) (name # names)"
    using a2 a1 k by simp
  moreover have "book_authors_rows st' = book_authors_rows st @ ((isbn, aid) # new)"
    using l1 l2 by simp
  moreover have "fst ` set ((isbn, aid) # new) \<subseteq> {isbn}" using i2 by simp
  ultimately show ?case using ok2 by blast
qed

lemma rows_loop_inv:
  assumes "registry_ok st"
  shows "\<exists>st'. rows_loop bdf st = Inr st' \<and> registry_ok st'
           \<and> map snd (authors_rows st') =
               map snd (authors_rows st) @ keep_first py_lower (map fst (author_name_to_id st)) (all_names bdf)
           \<and> (\<exists>new. book_authors_rows st' = book_authors_rows st @ new
                    \<and> fst ` set new \<subseteq> isbn10 ` set bdf)"
  using assms
proof (induction bdf arbitrary: st)
  case Nil
  then show ?case by (simp add: all_names_def)
next
  case (Cons row bdf)
  let ?names = "split_authors (Some (author row))"
  from names_loop_inv[OF Cons.prems, of "isbn10 row" ?names] obtain st1 new1 where
    s1: "names_loop (isbn10 row) ?names st = Inr st1" and ok1: "registry_ok st1"
    and a1: "map snd (authors_rows st1) =
               map snd (authors_rows st) @ keep_first py_lower (map fst (author_name_to_id st)) ?names"
    and l1: "book_authors_rows st1 = book_authors_rows st @ new1"
    and i1: "fst ` set new1 \<subseteq> {isbn10 row}"
    by blast
  from Cons.IH[OF ok1] obtain st' new where
    s2: "rows_loop bdf st1 = Inr st'" and ok2: "registry_ok st'"
    and a2: "map snd (authors_rows st') =
               map snd (authors_rows st1) @ keep_first py_lower (map fst (author_name_to_id st1)) (all_names bdf)"
    and l2: "book_authors_rows st' = book_authors_rows st1 @ new"
    and i2: "fst ` set new \<subseteq> isbn10 ` set bdf"
    by blast
  have seen: "set (map fst (author_name_to_id st1)) =
      set (map fst (author_name_to_id st)) \<union> py_lower ` set (keep_first py_lower (map fst (author_name_to_id st)) ?names)"
    unfolding registry_ok_keys[OF ok1] registry_ok_keys[OF Cons.prems] a1 by auto
  have k: "keep_first py_lower (map fst (author_name_to_id st)) (?names @ all_names bdf) =
        keep_first py_lower (map fst (author_name_to_id st)) ?names
        @ keep_first py_lower (map fst (author_name_to_id st1)) (all_names bdf)"
    using seen by (rule keep_first_next_seen)
  have an: "all_names (row # bdf) = ?names @ all_names bdf" by (simp add: all_names_def)
  have "rows_loop (row # bdf) st = Inr st'" using s1 s2 by simp
  moreover have "map snd (authors_rows st') =
               map snd (authors_rows st) @ keep_first py_lower (map fst (author_name_to_id st)) (all_names (row # bdf))"
    unfolding an using a2 a1 k by simp
  moreover have "book_authors_rows st' = book_authors_rows st @ (new1 @ new)"
    using l1 l2 by simp
  moreover have "fst ` set (new1 @ new) \<subseteq> isbn10 ` set (row # bdf)" using i1 i2 by auto
  ultimately show ?case using ok2 by blast
qed

section \<open>The tables of the Book Table Builder\<close>

lemma initial_state_ok: "registry_ok initial_state"
  by (simp add: registry_ok_def initial_state_def)

lemma registry_ok_sorted: "registry_ok st \<Longrightarrow> sort_key fst (authors_rows st) = authors_rows st"
proof -
  assume "registry_ok st"
  then have "map fst (authors_rows st) = [1..int (length (authors_rows st))]"
    unfolding registry_ok_def by blast
  then have "sorted (map fst (authors_rows st))" by (simp only: sorted_upto)
  then show ?thesis by (rule sort_key_id_if_sorted)
qed

lemma drop_duplicates_set: "set (drop_duplicates (\<lambda>x. x) xs) = set xs"
  using keep_first_keys[of "\<lambda>x. x" "[]" xs] by (simp add: drop_duplicates_def)

lemma drop_duplicates_distinct: "distinct (map key (drop_duplicates key xs))"
  unfolding drop_duplicates_def by (rule keep_first_distinct)

lemma drop_duplicates_subseq: "subseq (drop_duplicates key xs) xs"
  unfolding drop_duplicates_def by (rule keep_first_subseq)

lemma drop_duplicates_find:
  "find (\<lambda>x. key x = k) (drop_duplicates key xs) = find (\<lambda>x. key x = k) xs"
  unfolding drop_duplicates_def by (rule keep_first_find) simp

lemma drop_duplicates_keys: "key ` set (drop_duplicates key xs) = key ` set xs"
  using keep_first_keys[of key "[]" xs] by (simp add: drop_duplicates_def)

lemma drop_duplicates_positions:
  "drop_duplicates key xs =
     map (nth xs) (filter (\<lambda>i. \<forall>j<i. key (xs ! j) \<noteq> key (xs ! i)) [0..<length xs])"
  unfolding drop_duplicates_def keep_first_positions_seen by simp

text \<open>What \<^verbatim>\<open>process_books\<close> returns: it never raises, and its tables are these.\<close>

lemma process_books_result:
  obtains st where
    "process_books rows =
       Inr (book_table (surviving_rows rows), authors_rows st,
            drop_duplicates (\<lambda>x. x) (book_authors_rows st))"
    and "registry_ok st"
    and "map snd (authors_rows st) = drop_duplicates py_lower (all_names (surviving_rows rows))"
    and "fst ` set (book_authors_rows st) \<subseteq> isbn10 ` set (surviving_rows rows)"
proof -
  from rows_loop_inv[OF initial_state_ok, of "surviving_rows rows"] obtain st new where
    s: "rows_loop (surviving_rows rows) initial_state = Inr st" and ok: "registry_ok st"
    and a: "map snd (authors_rows st) =
               map snd (authors_rows initial_state)
               @ keep_first py_lower (map fst (author_name_to_id initial_state)) (all_names (surviving_rows rows))"
    and l: "book_authors_rows st = book_authors_rows initial_state @ new"
    and i: "fst ` set new \<subseteq> isbn10 ` set (surviving_rows rows)"
    by blast
  have p: "process_books rows =
          Inr (book_table (surviving_rows rows), authors_rows st,
               drop_duplicates (\<lambda>x. x) (book_authors_rows st))"
    unfolding process_books_def Let_def s using registry_ok_sorted[OF ok] by simp
  have n: "map snd (authors_rows st) = drop_duplicates py_lower (all_names (surviving_rows rows))"
    using a by (simp add: initial_state_def drop_duplicates_def)
  have f: "fst ` set (book_authors_rows st) \<subseteq> isbn10 ` set (surviving_rows rows)"
    using l i by (simp add: initial_state_def)
  show thesis using p ok n f by (rule that)
qed

section \<open>Author registry and link table\<close>

lemma books_example:
  "process_books example_books =
     Inr ([(''0001'', ''First''), (''0002'', ''Second'')],
          [(1, ''Jane Doe''), (2, ''Bob Ray''), (3, ''Al'')],
          [(''0001'', 1), (''0001'', 2), (''0001'', 3), (''0002'', 2), (''0002'', 1)])"
  by code_simp

lemma names_example:
  "all_names (surviving_rows example_books) =
     [''Jane Doe'', ''Bob Ray'', ''Jane Doe'', ''Al'', ''Bob Ray'', ''Jane Doe'']"
  by code_simp

lemma distinct_keys_count:
  "distinct (map f xs) \<Longrightarrow>
   length (filter (\<lambda>x. f x = k) xs) = (if k \<in> f ` set xs then 1 else 0)"
proof (induction xs)
  case Nil
  then show ?case by simp
next
  case (Cons x xs)
  then have ih: "length (filter (\<lambda>x. f x = k) xs) = (if k \<in> f ` set xs then 1 else 0)"
    by simp
  from Cons.prems have nx: "f x \<notin> f ` set xs" by simp
  show ?case
  proof (cases "f x = k")
    case True
    then have "k \<notin> f ` set xs" using nx by simp
    then show ?thesis using True ih by simp
  next
    case False
    then show ?thesis using ih by auto
  qed
qed

lemma books_casing_example:
  "process_books example_books_casing =
     Inr ([(''0001'', ''First''), (''0002'', ''Second'')],
          [(1, ''Ann McKay''), (2, ''Bob Ray''), (3, ''Cy Lee'')],
          [(''0001'', 1), (''0001'', 2), (''0002'', 2), (''0002'', 1), (''0002'', 3)])"
  by code_simp

lemma names_casing_example:
  "all_names (surviving_rows example_books_casing) =
     [''Ann McKay'', ''Bob Ray'', ''Bob Ray'', ''Ann Mckay'', ''Cy Lee'']"
  by code_simp

text \<open>
  C5. \<^verbatim>\<open>process_books\<close> returns its tables for every list of rows (it never raises).
  The Author_ids of the authors table are 1, 2, ..., N in the order of the table, which is
  therefore ordered by Author_id ascending. Let \<open>names\<close> be the names that the loops
  visit: the names of the surviving rows, row after row. The names of the table, in the
  order of the table, are the visited names at the positions of first occurrence, in
  increasing position: a visited name is recorded exactly when no earlier visited name
  has the same lower-case form. So the author with Author_id k is the k-th distinct
  case-insensitive name in order of first appearance, in its first-seen casing. In
  particular no two names of the table have the same lower-case form, they are a
  subsequence of the visited names, and for every lower-case key the name recorded is
  the first visited name with that key.
\<close>

theorem author_ids_dense:
  assumes "names = all_names (surviving_rows rows)"
  shows "\<exists>book authors links.
     process_books rows = Inr (book, authors, links)
     \<and> map fst authors = [1..int (length authors)]
     \<and> sorted (map fst authors)
     \<and> map snd authors =
         map (nth names)
           (filter (\<lambda>i. \<forall>j<i. py_lower (names ! j) \<noteq> py_lower (names ! i)) [0..<length names])
     \<and> distinct (map py_lower (map snd authors))
     \<and> subseq (map snd authors) names
     \<and> (\<forall>k. find (\<lambda>n. py_lower n = k) (map snd authors) = find (\<lambda>n. py_lower n = k) names)"
proof -
  obtain st where
    p: "process_books rows =
          Inr (book_table (surviving_rows rows), authors_rows st,
               drop_duplicates (\<lambda>x. x) (book_authors_rows st))"
    and ok: "registry_ok st"
    and n: "map snd (authors_rows st) = drop_duplicates py_lower (all_names (surviving_rows rows))"
    and i: "fst ` set (book_authors_rows st) \<subseteq> isbn10 ` set (surviving_rows rows)"
    by (rule process_books_result)
  have n': "map snd (authors_rows st) = drop_duplicates py_lower names"
    unfolding assms by (rule n)
  have ids: "map fst (authors_rows st) = [1..int (length (authors_rows st))]"
    using ok unfolding registry_ok_def by blast
  have srt: "sorted (map fst (authors_rows st))"
    unfolding ids by (simp only: sorted_upto)
  have pos: "map snd (authors_rows st) =
         map (nth names)
           (filter (\<lambda>i. \<forall>j<i. py_lower (names ! j) \<noteq> py_lower (names ! i)) [0..<length names])"
    unfolding n' by (rule drop_duplicates_positions)
  have d: "distinct (map py_lower (map snd (authors_rows st)))"
    unfolding n' by (rule drop_duplicates_distinct)
  have s: "subseq (map snd (authors_rows st)) names"
    unfolding n' by (rule drop_duplicates_subseq)
  have f: "\<forall>k. find (\<lambda>n. py_lower n = k) (map snd (authors_rows st))
             = find (\<lambda>n. py_lower n = k) names"
    unfolding n' by (simp add: drop_duplicates_find)
  show ?thesis
  proof (intro exI conjI)
    show "process_books rows =
          Inr (book_table (surviving_rows rows), authors_rows st,
               drop_duplicates (\<lambda>x. x) (book_authors_rows st))" by (rule p)
    show "map fst (authors_rows st) = [1..int (length (authors_rows st))]" by (rule ids)
    show "sorted (map fst (authors_rows st))" by (rule srt)
    show "map snd (authors_rows st) =
         map (nth names)
           (filter (\<lambda>i. \<forall>j<i. py_lower (names ! j) \<noteq> py_lower (names ! i)) [0..<length names])"
      by (rule pos)
    show "distinct (map py_lower (map snd (authors_rows st)))" by (rule d)
    show "subseq (map snd (authors_rows st)) names" by (rule s)
    show "\<forall>k. find (\<lambda>n. py_lower n = k) (map snd (authors_rows st))
             = find (\<lambda>n. py_lower n = k) names" by (rule f)
  qed
qed

theorem author_ids_dense_witness:
  "process_books example_books_casing =
     Inr ([(''0001'', ''First''), (''0002'', ''Second'')],
          [(1, ''Ann McKay''), (2, ''Bob Ray''), (3, ''Cy Lee'')],
          [(''0001'', 1), (''0001'', 2), (''0002'', 2), (''0002'', 1), (''0002'', 3)])
   \<and> all_names (surviving_rows example_books_casing)
       = [''Ann McKay'', ''Bob Ray'', ''Bob Ray'', ''Ann Mckay'', ''Cy Lee'']
   \<and> map fst [(1::int, ''Ann McKay''), (2, ''Bob Ray''), (3, ''Cy Lee'')]
       = [1..int (length [(1::int, ''Ann McKay''), (2, ''Bob Ray''), (3, ''Cy Lee'')])]
   \<and> map (nth [''Ann McKay'', ''Bob Ray'', ''Bob Ray'', ''Ann Mckay'', ''Cy Lee''])
        (filter (\<lambda>i. \<forall>j<i. py_lower ([''Ann McKay'', ''Bob Ray'', ''Bob Ray'', ''Ann Mckay'', ''Cy Lee''] ! j)
                           \<noteq> py_lower ([''Ann McKay'', ''Bob Ray'', ''Bob Ray'', ''Ann Mckay'', ''Cy Lee''] ! i))
           [0..<length [''Ann McKay'', ''Bob Ray'', ''Bob Ray'', ''Ann Mckay'', ''Cy Lee'']])
       = [''Ann McKay'', ''Bob Ray'', ''Cy Lee'']
   \<and> py_lower ''Ann Mckay'' = py_lower ''Ann McKay''
   \<and> ''Ann Mckay'' \<noteq> ''Ann McKay''"
proof -
  from author_ids_dense[OF names_casing_example[symmetric]] obtain book authors links where
    p: "process_books example_books_casing = Inr (book, authors, links)"
    and i: "map fst authors = [1..int (length authors)]"
    and q: "map snd authors =
         map (nth [''Ann McKay'', ''Bob Ray'', ''Bob Ray'', ''Ann Mckay'', ''Cy Lee''])
           (filter (\<lambda>i. \<forall>j<i. py_lower ([''Ann McKay'', ''Bob Ray'', ''Bob Ray'', ''Ann Mckay'', ''Cy Lee''] ! j)
                              \<noteq> py_lower ([''Ann McKay'', ''Bob Ray'', ''Bob Ray'', ''Ann Mckay'', ''Cy Lee''] ! i))
              [0..<length [''Ann McKay'', ''Bob Ray'', ''Bob Ray'', ''Ann Mckay'', ''Cy Lee'']])"
    by (elim exE conjE)
  from p have a: "authors = [(1, ''Ann McKay''), (2, ''Bob Ray''), (3, ''Cy Lee'')]"
    unfolding books_casing_example by simp
  have m: "map snd [(1::int, ''Ann McKay''), (2, ''Bob Ray''), (3, ''Cy Lee'')]
             = [''Ann McKay'', ''Bob Ray'', ''Cy Lee'']" by simp
  from i have i': "map fst [(1::int, ''Ann McKay''), (2, ''Bob Ray''), (3, ''Cy Lee'')]
       = [1..int (length [(1::int, ''Ann McKay''), (2, ''Bob Ray''), (3, ''Cy Lee'')])]"
    unfolding a .
  from q have q': "map (nth [''Ann McKay'', ''Bob Ray'', ''Bob Ray'', ''Ann Mckay'', ''Cy Lee''])
        (filter (\<lambda>i. \<forall>j<i. py_lower ([''Ann McKay'', ''Bob Ray'', ''Bob Ray'', ''Ann Mckay'', ''Cy Lee''] ! j)
                           \<noteq> py_lower ([''Ann McKay'', ''Bob Ray'', ''Bob Ray'', ''Ann Mckay'', ''Cy Lee''] ! i))
           [0..<length [''Ann McKay'', ''Bob Ray'', ''Bob Ray'', ''Ann Mckay'', ''Cy Lee'']])
       = [''Ann McKay'', ''Bob Ray'', ''Cy Lee'']"
    unfolding a m by (rule sym)
  have l: "py_lower ''Ann Mckay'' = py_lower ''Ann McKay''" by code_simp
  have d: "''Ann Mckay'' \<noteq> ''Ann McKay''" by simp
  from books_casing_example names_casing_example i' q' l d show ?thesis by (intro conjI)
qed

text \<open>
  C6. For every list of book rows the book_authors table has no duplicate
  (Isbn, Author_id) pair, and for every lower-case key the authors table has exactly one
  row whose name has that key when a name of a surviving row has it, and none otherwise.
  The catalogue \<open>example_books\<close> has two rows with the same ISBN10 that name
  \<^verbatim>\<open>Jane Doe\<close> and \<^verbatim>\<open>JANE DOE\<close>.
\<close>

theorem links_and_authors_unique:
  "\<exists>book authors links.
     process_books rows = Inr (book, authors, links)
     \<and> distinct links
     \<and> (\<forall>k. length (filter (\<lambda>a. py_lower (snd a) = k) authors)
             = (if k \<in> py_lower ` set (all_names (surviving_rows rows)) then 1 else 0))"
proof -
  obtain st where
    p: "process_books rows =
          Inr (book_table (surviving_rows rows), authors_rows st,
               drop_duplicates (\<lambda>x. x) (book_authors_rows st))"
    and ok: "registry_ok st"
    and n: "map snd (authors_rows st) = drop_duplicates py_lower (all_names (surviving_rows rows))"
    and i: "fst ` set (book_authors_rows st) \<subseteq> isbn10 ` set (surviving_rows rows)"
    by (rule process_books_result)
  have "distinct (map (\<lambda>x. x) (drop_duplicates (\<lambda>x. x) (book_authors_rows st)))"
    by (rule drop_duplicates_distinct)
  then have dl: "distinct (drop_duplicates (\<lambda>x. x) (book_authors_rows st))"
    by (simp only: list.map_ident)
  have m: "map (\<lambda>a. py_lower (snd a)) (authors_rows st) = map py_lower (map snd (authors_rows st))"
    by simp
  have d: "distinct (map (\<lambda>a. py_lower (snd a)) (authors_rows st))"
    unfolding m n by (rule drop_duplicates_distinct)
  have "(\<lambda>a. py_lower (snd a)) ` set (authors_rows st) = set (map py_lower (map snd (authors_rows st)))"
    unfolding m[symmetric] by (simp only: set_map)
  also have "\<dots> = py_lower ` set (drop_duplicates py_lower (all_names (surviving_rows rows)))"
    unfolding n by (simp only: set_map)
  also have "\<dots> = py_lower ` set (all_names (surviving_rows rows))"
    by (rule drop_duplicates_keys)
  finally have ks: "(\<lambda>a. py_lower (snd a)) ` set (authors_rows st)
          = py_lower ` set (all_names (surviving_rows rows))" .
  have c: "length (filter (\<lambda>a. py_lower (snd a) = k) (authors_rows st))
             = (if k \<in> py_lower ` set (all_names (surviving_rows rows)) then 1 else 0)" for k
    using distinct_keys_count[OF d, of k] unfolding ks .
  show ?thesis
  proof (intro exI conjI allI)
    show "process_books rows =
          Inr (book_table (surviving_rows rows), authors_rows st,
               drop_duplicates (\<lambda>x. x) (book_authors_rows st))" by (rule p)
    show "distinct (drop_duplicates (\<lambda>x. x) (book_authors_rows st))" by (rule dl)
    show "length (filter (\<lambda>a. py_lower (snd a) = k) (authors_rows st))
             = (if k \<in> py_lower ` set (all_names (surviving_rows rows)) then 1 else 0)" for k
      by (rule c)
  qed
qed

theorem links_and_authors_unique_witness:
  "process_books example_books =
     Inr ([(''0001'', ''First''), (''0002'', ''Second'')],
          [(1, ''Jane Doe''), (2, ''Bob Ray''), (3, ''Al'')],
          [(''0001'', 1), (''0001'', 2), (''0001'', 3), (''0002'', 2), (''0002'', 1)])
   \<and> distinct [(''0001'', 1::int), (''0001'', 2), (''0001'', 3), (''0002'', 2), (''0002'', 1)]
   \<and> length (filter (\<lambda>a. py_lower (snd a) = ''jane doe'')
        [(1::int, ''Jane Doe''), (2, ''Bob Ray''), (3, ''Al'')]) = 1"
proof -
  from links_and_authors_unique[of example_books] obtain book authors links where
    p: "process_books example_books = Inr (book, authors, links)"
    and d: "distinct links"
    and c: "\<forall>k. length (filter (\<lambda>a. py_lower (snd a) = k) authors)
             = (if k \<in> py_lower ` set (all_names (surviving_rows example_books)) then 1 else 0)"
    by blast
  from p have a: "authors = [(1, ''Jane Doe''), (2, ''Bob Ray''), (3, ''Al'')]"
    and l: "links = [(''0001'', 1), (''0001'', 2), (''0001'', 3), (''0002'', 2), (''0002'', 1)]"
    unfolding books_example by simp_all
  have j: "py_lower ''Jane Doe'' = ''jane doe''" by code_simp
  have "''jane doe'' \<in> py_lower ` set (all_names (surviving_rows example_books))"
    unfolding names_example using j by simp
  then have "length (filter (\<lambda>a. py_lower (snd a) = ''jane doe'') authors) = 1"
    using c by simp
  then show ?thesis using books_example d unfolding a l by blast
qed

section \<open>Rows without an ISBN10\<close>

lemma surviving_rows_filter:
  "surviving_rows (filter (\<lambda>r. normalize_whitespace (ISBN10 r) \<noteq> []) rows) = surviving_rows rows"
proof -
  have "filter (\<lambda>r. 0 < length (isbn10 r))
          (map normalize_book_row (filter (\<lambda>r. normalize_whitespace (ISBN10 r) \<noteq> []) rows))
        = filter (\<lambda>r. 0 < length (isbn10 r)) (map normalize_book_row rows)"
    by (induction rows) (simp_all add: normalize_book_row_def)
  then show ?thesis by (simp add: surviving_rows_def)
qed

lemma process_books_filter:
  "process_books (filter (\<lambda>r. normalize_whitespace (ISBN10 r) \<noteq> []) rows) = process_books rows"
  unfolding process_books_def surviving_rows_filter ..

lemma surviving_rows_isbn:
  "isbn10 ` set (surviving_rows rows)
     = {i. i \<noteq> [] \<and> i \<in> (\<lambda>r. normalize_whitespace (ISBN10 r)) ` set rows}"
proof (rule set_eqI)
  fix i
  have e: "isbn10 (normalize_book_row r) = normalize_whitespace (ISBN10 r)" for r
    by (simp add: normalize_book_row_def)
  have "i \<in> isbn10 ` set (surviving_rows rows)
          \<longleftrightarrow> (\<exists>r \<in> set rows. i = isbn10 (normalize_book_row r) \<and> isbn10 (normalize_book_row r) \<noteq> [])"
    unfolding surviving_rows_def by (auto simp del: e)
  also have "\<dots> \<longleftrightarrow> (\<exists>r \<in> set rows. i = normalize_whitespace (ISBN10 r) \<and> i \<noteq> [])"
    unfolding e by blast
  also have "\<dots> \<longleftrightarrow> i \<in> {i. i \<noteq> [] \<and> i \<in> (\<lambda>r. normalize_whitespace (ISBN10 r)) ` set rows}"
    by blast
  finally show "i \<in> isbn10 ` set (surviving_rows rows)
          \<longleftrightarrow> i \<in> {i. i \<noteq> [] \<and> i \<in> (\<lambda>r. normalize_whitespace (ISBN10 r)) ` set rows}" .
qed

lemma book_table_isbn: "fst ` set (book_table bdf) = isbn10 ` set bdf"
proof -
  have "fst ` set (book_table bdf) = fst ` set (map (\<lambda>r. (isbn10 r, title r)) bdf)"
    unfolding book_table_def by (rule drop_duplicates_keys)
  also have "\<dots> = isbn10 ` set bdf" by (simp add: image_image)
  finally show ?thesis .
qed

lemma books_example_filtered:
  "filter (\<lambda>r. normalize_whitespace (ISBN10 r) \<noteq> []) example_books
     = [\<lparr>ISBN10 = Some ''0001'', Title = Some ''First'', Author = Some ''Jane Doe, Bob Ray''\<rparr>,
        \<lparr>ISBN10 = Some ''0001'', Title = Some ''Other'', Author = Some ''JANE DOE; al''\<rparr>,
        \<lparr>ISBN10 = Some ''0002'', Title = Some ''Second'', Author = Some ''bob ray and Jane Doe''\<rparr>]"
  by code_simp

text \<open>
  C7. \<^verbatim>\<open>process_books\<close> returns its tables for every list of rows (no error is raised),
  and they are the tables it returns for the list without the rows whose ISBN10 is empty
  after whitespace normalization: such a row adds nothing to any table. The Isbns of
  the book table are the non-empty normalized ISBN10s of the rows, and no link has an
  empty Isbn.
\<close>

theorem rows_without_isbn_dropped:
  "\<exists>book authors links.
     process_books rows = Inr (book, authors, links)
     \<and> process_books (filter (\<lambda>r. normalize_whitespace (ISBN10 r) \<noteq> []) rows)
           = Inr (book, authors, links)
     \<and> fst ` set book = {i. i \<noteq> [] \<and> i \<in> (\<lambda>r. normalize_whitespace (ISBN10 r)) ` set rows}
     \<and> [] \<notin> fst ` set links"
proof -
  obtain st where
    p: "process_books rows =
          Inr (book_table (surviving_rows rows), authors_rows st,
               drop_duplicates (\<lambda>x. x) (book_authors_rows st))"
    and ok: "registry_ok st"
    and n: "map snd (authors_rows st) = drop_duplicates py_lower (all_names (surviving_rows rows))"
    and i: "fst ` set (book_authors_rows st) \<subseteq> isbn10 ` set (surviving_rows rows)"
    by (rule process_books_result)
  have q: "process_books (filter (\<lambda>r. normalize_whitespace (ISBN10 r) \<noteq> []) rows) =
          Inr (book_table (surviving_rows rows), authors_rows st,
               drop_duplicates (\<lambda>x. x) (book_authors_rows st))"
    unfolding process_books_filter by (rule p)
  have b: "fst ` set (book_table (surviving_rows rows))
             = {i. i \<noteq> [] \<and> i \<in> (\<lambda>r. normalize_whitespace (ISBN10 r)) ` set rows}"
    unfolding book_table_isbn by (rule surviving_rows_isbn)
  have "[] \<notin> isbn10 ` set (surviving_rows rows)"
    unfolding surviving_rows_isbn by simp
  then have "[] \<notin> fst ` set (book_authors_rows st)" using i by blast
  then have l: "[] \<notin> fst ` set (drop_duplicates (\<lambda>x. x) (book_authors_rows st))"
    unfolding drop_duplicates_set .
  show ?thesis
  proof (intro exI conjI)
    show "process_books rows =
          Inr (book_table (surviving_rows rows), authors_rows st,
               drop_duplicates (\<lambda>x. x) (book_authors_rows st))" by (rule p)
    show "process_books (filter (\<lambda>r. normalize_whitespace (ISBN10 r) \<noteq> []) rows) =
          Inr (book_table (surviving_rows rows), authors_rows st,
               drop_duplicates (\<lambda>x. x) (book_authors_rows st))" by (rule q)
    show "fst ` set (book_table (surviving_rows rows))
             = {i. i \<noteq> [] \<and> i \<in> (\<lambda>r. normalize_whitespace (ISBN10 r)) ` set rows}" by (rule b)
    show "[] \<notin> fst ` set (drop_duplicates (\<lambda>x. x) (book_authors_rows st))" by (rule l)
  qed
qed

theorem rows_without_isbn_dropped_witness:
  "process_books example_books =
     Inr ([(''0001'', ''First''), (''0002'', ''Second'')],
          [(1, ''Jane Doe''), (2, ''Bob Ray''), (3, ''Al'')],
          [(''0001'', 1), (''0001'', 2), (''0001'', 3), (''0002'', 2), (''0002'', 1)])
   \<and> process_books
        [\<lparr>ISBN10 = Some ''0001'', Title = Some ''First'', Author = Some ''Jane Doe, Bob Ray''\<rparr>,
         \<lparr>ISBN10 = Some ''0001'', Title = Some ''Other'', Author = Some ''JANE DOE; al''\<rparr>,
         \<lparr>ISBN10 = Some ''0002'', Title = Some ''Second'', Author = Some ''bob ray and Jane Doe''\<rparr>]
       = Inr ([(''0001'', ''First''), (''0002'', ''Second'')],
          [(1, ''Jane Doe''), (2, ''Bob Ray''), (3, ''Al'')],
          [(''0001'', 1), (''0001'', 2), (''0001'', 3), (''0002'', 2), (''0002'', 1)])"
proof -
  from rows_without_isbn_dropped[of example_books] obtain book authors links where
    p: "process_books example_books = Inr (book, authors, links)"
    and q: "process_books (filter (\<lambda>r. normalize_whitespace (ISBN10 r) \<noteq> []) example_books)
           = Inr (book, authors, links)"
    by (elim exE conjE)
  from q p show ?thesis unfolding books_example_filtered books_example by simp
qed

section \<open>Referential consistency\<close>

text \<open>
  C10. In the tables that \<^verbatim>\<open>process_books\<close> returns, every link of book_authors has its
  Isbn in the book table and its Author_id in the authors table.
\<close>

theorem links_referentially_consistent:
  "\<exists>book authors links.
     process_books rows = Inr (book, authors, links)
     \<and> (\<forall>l \<in> set links. fst l \<in> fst ` set book \<and> snd l \<in> fst ` set authors)"
proof -
  obtain st where
    p: "process_books rows =
          Inr (book_table (surviving_rows rows), authors_rows st,
               drop_duplicates (\<lambda>x. x) (book_authors_rows st))"
    and ok: "registry_ok st"
    and n: "map snd (authors_rows st) = drop_duplicates py_lower (all_names (surviving_rows rows))"
    and i: "fst ` set (book_authors_rows st) \<subseteq> isbn10 ` set (surviving_rows rows)"
    by (rule process_books_result)
  have a: "snd ` set (book_authors_rows st) \<subseteq> fst ` set (authors_rows st)"
    using ok unfolding registry_ok_def by blast
  have r: "\<forall>l \<in> set (drop_duplicates (\<lambda>x. x) (book_authors_rows st)).
             fst l \<in> fst ` set (book_table (surviving_rows rows)) \<and> snd l \<in> fst ` set (authors_rows st)"
    unfolding drop_duplicates_set book_table_isbn using i a by blast
  show ?thesis
  proof (intro exI conjI)
    show "process_books rows =
          Inr (book_table (surviving_rows rows), authors_rows st,
               drop_duplicates (\<lambda>x. x) (book_authors_rows st))" by (rule p)
    show "\<forall>l \<in> set (drop_duplicates (\<lambda>x. x) (book_authors_rows st)).
             fst l \<in> fst ` set (book_table (surviving_rows rows)) \<and> snd l \<in> fst ` set (authors_rows st)"
      by (rule r)
  qed
qed

theorem links_referentially_consistent_witness:
  "process_books example_books =
     Inr ([(''0001'', ''First''), (''0002'', ''Second'')],
          [(1, ''Jane Doe''), (2, ''Bob Ray''), (3, ''Al'')],
          [(''0001'', 1), (''0001'', 2), (''0001'', 3), (''0002'', 2), (''0002'', 1)])
   \<and> ''0002'' \<in> fst ` set [(''0001'', ''First''), (''0002'', ''Second'')]
   \<and> (2::int) \<in> fst ` set [(1::int, ''Jane Doe''), (2, ''Bob Ray''), (3, ''Al'')]"
proof -
  from links_referentially_consistent[of example_books] obtain book authors links where
    p: "process_books example_books = Inr (book, authors, links)"
    and r: "\<forall>l \<in> set links. fst l \<in> fst ` set book \<and> snd l \<in> fst ` set authors"
    by (elim exE conjE)
  from p have b: "book = [(''0001'', ''First''), (''0002'', ''Second'')]"
    and a: "authors = [(1, ''Jane Doe''), (2, ''Bob Ray''), (3, ''Al'')]"
    and l: "links = [(''0001'', 1), (''0001'', 2), (''0001'', 3), (''0002'', 2), (''0002'', 1)]"
    unfolding books_example by simp_all
  have "(''0002'', 2) \<in> set links" unfolding l by simp
  with r have "fst (''0002'', 2::int) \<in> fst ` set book \<and> snd (''0002'', 2::int) \<in> fst ` set authors"
    by (rule bspec)
  then have "''0002'' \<in> fst ` set book" and "(2::int) \<in> fst ` set authors"
    by (simp_all only: fst_conv snd_conv)
  then show ?thesis using books_example unfolding a b by blast
qed

section \<open>Repeated keys\<close>

lemma borrowers_example:
  "process_borrowers example_borrowers =
     [\<lparr>Card_id = ''ID000001'', Bname = ''Ann Lee'',
       Address = ''1 Main St, Springfield, IL'', Phone = ''555-0100'',
       Ssn = ''123456789''\<rparr>]"
  by code_simp

lemma borrowers_example_composed:
  "map compose_borrower example_borrowers =
     [\<lparr>Card_id = ''ID000001'', Bname = ''Ann Lee'',
       Address = ''1 Main St, Springfield, IL'', Phone = ''555-0100'',
       Ssn = ''123456789''\<rparr>,
      \<lparr>Card_id = ''ID000001'', Bname = ''Bob Ray'',
       Address = ''2 Elm St, Dallas, TX'', Phone = ''555-0101'',
       Ssn = ''987654321''\<rparr>]"
  by code_simp

lemma books_example_surviving:
  "map (\<lambda>r. (isbn10 r, title r)) (surviving_rows example_books)
     = [(''0001'', ''First''), (''0001'', ''Other''), (''0002'', ''Second'')]"
  by code_simp

text \<open>
  C8. Repeated keys raise no error; the first row wins. \<^verbatim>\<open>process_books\<close> returns its
  tables for every list of rows; no two rows of the book table have the same Isbn; the
  table is a subsequence of the (Isbn, Title) pairs of the surviving rows; and for every
  Isbn the row of the table is the first surviving row with that Isbn, whatever the
  Titles of the later ones. Likewise no two borrowers returned by \<^verbatim>\<open>process_borrowers\<close>
  have the same Card_id, they are a subsequence of the composed rows, and for every
  Card_id the borrower returned is the first composed row with that Card_id.
\<close>

theorem first_occurrence_wins:
  "(\<exists>book authors links.
      process_books rows = Inr (book, authors, links)
      \<and> distinct (map fst book)
      \<and> subseq book (map (\<lambda>r. (isbn10 r, title r)) (surviving_rows rows))
      \<and> (\<forall>k. find (\<lambda>b. fst b = k) book
              = find (\<lambda>b. fst b = k) (map (\<lambda>r. (isbn10 r, title r)) (surviving_rows rows))))
   \<and> distinct (map Card_id (process_borrowers brows))
   \<and> subseq (process_borrowers brows) (map compose_borrower brows)
   \<and> (\<forall>k. find (\<lambda>b. Card_id b = k) (process_borrowers brows)
           = find (\<lambda>b. Card_id b = k) (map compose_borrower brows))"
proof -
  obtain st where
    p: "process_books rows =
          Inr (book_table (surviving_rows rows), authors_rows st,
               drop_duplicates (\<lambda>x. x) (book_authors_rows st))"
    and ok: "registry_ok st"
    and n: "map snd (authors_rows st) = drop_duplicates py_lower (all_names (surviving_rows rows))"
    and i: "fst ` set (book_authors_rows st) \<subseteq> isbn10 ` set (surviving_rows rows)"
    by (rule process_books_result)
  have b1: "distinct (map fst (book_table (surviving_rows rows)))"
    unfolding book_table_def by (rule drop_duplicates_distinct)
  have b2: "subseq (book_table (surviving_rows rows))
              (map (\<lambda>r. (isbn10 r, title r)) (surviving_rows rows))"
    unfolding book_table_def by (rule drop_duplicates_subseq)
  have b3: "find (\<lambda>b. fst b = k) (book_table (surviving_rows rows))
              = find (\<lambda>b. fst b = k) (map (\<lambda>r. (isbn10 r, title r)) (surviving_rows rows))" for k
    unfolding book_table_def by (rule drop_duplicates_find)
  have books: "\<exists>book authors links.
      process_books rows = Inr (book, authors, links)
      \<and> distinct (map fst book)
      \<and> subseq book (map (\<lambda>r. (isbn10 r, title r)) (surviving_rows rows))
      \<and> (\<forall>k. find (\<lambda>b. fst b = k) book
              = find (\<lambda>b. fst b = k) (map (\<lambda>r. (isbn10 r, title r)) (surviving_rows rows)))"
  proof (intro exI conjI allI)
    show "process_books rows =
          Inr (book_table (surviving_rows rows), authors_rows st,
               drop_duplicates (\<lambda>x. x) (book_authors_rows st))" by (rule p)
    show "distinct (map fst (book_table (surviving_rows rows)))" by (rule b1)
    show "subseq (book_table (surviving_rows rows))
              (map (\<lambda>r. (isbn10 r, title r)) (surviving_rows rows))" by (rule b2)
    show "find (\<lambda>b. fst b = k) (book_table (surviving_rows rows))
              = find (\<lambda>b. fst b = k) (map (\<lambda>r. (isbn10 r, title r)) (surviving_rows rows))" for k
      by (rule b3)
  qed
  have c1: "distinct (map Card_id (process_borrowers brows))"
    unfolding process_borrowers_def by (rule drop_duplicates_distinct)
  have c2: "subseq (process_borrowers brows) (map compose_borrower brows)"
    unfolding process_borrowers_def by (rule drop_duplicates_subseq)
  have c3: "\<forall>k. find (\<lambda>b. Card_id b = k) (process_borrowers brows)
           = find (\<lambda>b. Card_id b = k) (map compose_borrower brows)"
    unfolding process_borrowers_def by (intro allI) (rule drop_duplicates_find)
  from books c1 c2 c3 show ?thesis by (intro conjI)
qed

theorem first_occurrence_wins_witness:
  "process_books example_books =
     Inr ([(''0001'', ''First''), (''0002'', ''Second'')],
          [(1, ''Jane Doe''), (2, ''Bob Ray''), (3, ''Al'')],
          [(''0001'', 1), (''0001'', 2), (''0001'', 3), (''0002'', 2), (''0002'', 1)])
   \<and> find (\<lambda>b. fst b = ''0001'') [(''0001'', ''First''), (''0002'', ''Second'')]
       = find (\<lambda>b. fst b = ''0001'') [(''0001'', ''First''), (''0001'', ''Other''), (''0002'', ''Second'')]
   \<and> find (\<lambda>b. Card_id b = ''ID000001'') (process_borrowers example_borrowers)
       = Some \<lparr>Card_id = ''ID000001'', Bname = ''Ann Lee'',
               Address = ''1 Main St, Springfield, IL'', Phone = ''555-0100'',
               Ssn = ''123456789''\<rparr>"
proof -
  from first_occurrence_wins[of example_books example_borrowers] obtain book authors links where
    p: "process_books example_books = Inr (book, authors, links)"
    and f: "\<forall>k. find (\<lambda>b. fst b = k) book
              = find (\<lambda>b. fst b = k) (map (\<lambda>r. (isbn10 r, title r)) (surviving_rows example_books))"
    and g: "\<forall>k. find (\<lambda>b. Card_id b = k) (process_borrowers example_borrowers)
           = find (\<lambda>b. Card_id b = k) (map compose_borrower example_borrowers)"
    by (elim exE conjE)
  from p have b: "book = [(''0001'', ''First''), (''0002'', ''Second'')]"
    unfolding books_example by simp
  from f have f1: "find (\<lambda>b. fst b = ''0001'') [(''0001'', ''First''), (''0002'', ''Second'')]
       = find (\<lambda>b. fst b = ''0001'') [(''0001'', ''First''), (''0001'', ''Other''), (''0002'', ''Second'')]"
    unfolding b books_example_surviving by (rule spec)
  from g have "find (\<lambda>b. Card_id b = ''ID000001'') (process_borrowers example_borrowers)
           = find (\<lambda>b. Card_id b = ''ID000001'') (map compose_borrower example_borrowers)"
    by (rule spec)
  also have "\<dots> = Some \<lparr>Card_id = ''ID000001'', Bname = ''Ann Lee'',
               Address = ''1 Main St, Springfield, IL'', Phone = ''555-0100'',
               Ssn = ''123456789''\<rparr>"
    unfolding borrowers_example_composed by simp
  finally show ?thesis using books_example f1 by (intro conjI)
qed

end
